theory Spec2Isabelle
  imports Main
begin

section \<open>Result: the value-or-error sum\<close>

text \<open>
  \<^verbatim>\<open>Result<T, E>\<close> wraps \<^verbatim>\<open>std::variant<std::monostate, T, E>\<close>; the index of the
  alternative is \<^verbatim>\<open>kNull\<close>, \<^verbatim>\<open>kValue\<close> or \<^verbatim>\<open>kError\<close>.
\<close>

datatype ('t, 'e) Result = kNull | kValue 't | kError 'e

definition IsError :: "('t, 'e) Result \<Rightarrow> bool" where
  "IsError r = (case r of kError _ \<Rightarrow> True | _ \<Rightarrow> False)"

definition IsValue :: "('t, 'e) Result \<Rightarrow> bool" where
  "IsValue r = (case r of kValue _ \<Rightarrow> True | _ \<Rightarrow> False)"

text \<open>
  \<^verbatim>\<open>Value()\<close> and \<^verbatim>\<open>Error()\<close> dereference the pointer that \<^verbatim>\<open>std::get_if\<close> returns
  without testing it; \<open>None\<close> stands for the dereference of a null pointer.
\<close>

definition Value :: "('t, 'e) Result \<Rightarrow> 't option" where
  "Value r = (case r of kValue v \<Rightarrow> Some v | _ \<Rightarrow> None)"

definition Error :: "('t, 'e) Result \<Rightarrow> 'e option" where
  "Error r = (case r of kError e \<Rightarrow> Some e | _ \<Rightarrow> None)"

text \<open>The specialisation \<^verbatim>\<open>Result<void, E>\<close> holds only \<^verbatim>\<open>std::optional<E> err_\<close>.\<close>

record 'e ResultVoid =
  m_err :: "'e option"

definition ResultVoid_default :: "'e ResultVoid" where
  "ResultVoid_default = \<lparr>m_err = None\<rparr>"

definition ResultVoid_of_error :: "'e \<Rightarrow> 'e ResultVoid" where
  "ResultVoid_of_error e = \<lparr>m_err = Some e\<rparr>"

definition IsError_void :: "'e ResultVoid \<Rightarrow> bool" where
  "IsError_void r = (m_err r \<noteq> None)"

definition IsValue_void :: "'e ResultVoid \<Rightarrow> bool" where
  "IsValue_void r = False"

text \<open>\<^verbatim>\<open>Error()\<close> is \<^verbatim>\<open>err_.value()\<close>, which throws on an empty optional: \<open>None\<close> here.\<close>

definition Error_void :: "'e ResultVoid \<Rightarrow> 'e option" where
  "Error_void r = m_err r"

section \<open>Promise states\<close>

datatype PromiseStatus =
  kInit | kPreResolved | kResolved | kPreRejected | kRejected | kCancelled

type_synonym addr = nat

text \<open>
  The fields of \<^verbatim>\<open>PromiseStateBase\<close> and \<^verbatim>\<open>PromiseStateInternal<T, E>\<close>, the
  member \<^verbatim>\<open>status_\<close> written \<open>m_status\<close> and so on. Pointers are
  addresses into the heap of the world below, \<open>None\<close> being \<^verbatim>\<open>nullptr\<close>; an executor and
  a coroutine handle are opaque identifiers. The record is generic in the stored result
  \<open>'r\<close> and in the continuation \<open>'c\<close>, as the class template is.
\<close>

record ('r, 'c) PromiseState =
  m_status :: PromiseStatus
  m_exec :: "nat option"
  m_next :: "addr option"
  m_prev :: "addr option"
  m_co_handle :: "nat option"
  m_storage :: "'r option"
  m_cb :: "'c option"

definition new_state :: "nat option \<Rightarrow> ('r, 'c) PromiseState" where
  "new_state ex = \<lparr>m_status = kInit, m_exec = ex, m_next = None, m_prev = None,
     m_co_handle = None, m_storage = None, m_cb = None\<rparr>"

definition GetStatus :: "('r, 'c) PromiseState \<Rightarrow> PromiseStatus" where
  "GetStatus s = m_status s"

definition HasHandler :: "('r, 'c) PromiseState \<Rightarrow> bool" where
  "HasHandler s = (m_cb s \<noteq> None)"

text \<open>\<^verbatim>\<open>Promise::IsPending\<close>, read through the handle's owned state.\<close>

definition IsPending :: "('r, 'c) PromiseState \<Rightarrow> bool" where
  "IsPending s = (let status = GetStatus s in status = kPreResolved \<or> status = kPreRejected)"

text \<open>\<^verbatim>\<open>PromiseAwaiter::await_ready\<close> on the state of the awaited promise.\<close>

definition await_ready :: "('r, 'c) PromiseState \<Rightarrow> bool" where
  "await_ready s = IsPending s"

text \<open>
  The rule of the C++ language for an await expression: when \<^verbatim>\<open>await_ready()\<close> is true
  the coroutine goes on to \<^verbatim>\<open>await_resume()\<close> without suspending, otherwise it is
  suspended and \<^verbatim>\<open>await_suspend\<close> is called.
\<close>

datatype await_step = NoSuspend | Suspend

definition co_await_step :: "('r, 'c) PromiseState \<Rightarrow> await_step" where
  "co_await_step s = (if await_ready s then NoSuspend else Suspend)"

section \<open>The world: heap, executor queue and observation logs\<close>

text \<open>
  One heap holds promise states of every instantiation, so values and errors live in a
  universal domain: an atom, or a \<^verbatim>\<open>std::vector\<close> of values (the aggregate combinators
  build vectors of values and of errors).
\<close>

datatype 'a val = Atom 'a | Vec "'a val list"

type_synonym ('a, 'b) res = "('a val, 'b val) Result"

text \<open>
  The callables that reach \<^verbatim>\<open>Promise::Then\<close> with return type \<^verbatim>\<open>void\<close>: a function of
  the user, opaque and named by a number (its invocation is recorded in \<open>user_log\<close>), or
  one of the lambdas that \<^verbatim>\<open>MkAllPromise\<close> and \<^verbatim>\<open>MkAnyPromise\<close> build, with what each
  captures (\<^verbatim>\<open>idx\<close>, \<^verbatim>\<open>ctx\<close>, \<^verbatim>\<open>resolver\<close>).
\<close>

datatype VoidFn = UserFn nat | AllFn nat nat addr | AnyFn nat nat addr

text \<open>
  The closures that the three \<^verbatim>\<open>PromiseState::Attach\<close> overloads hand to
  \<^verbatim>\<open>AddCallback\<close>; each captures a weak pointer to the state it is attached to, and the
  callable \<^verbatim>\<open>f\<close>. A continuation that returns a promise is modelled as returning the
  address of the state behind that promise.
\<close>

datatype ('a, 'b) Callback =
    AttachVoid addr VoidFn
  | AttachResult addr "('a, 'b) res \<Rightarrow> ('a, 'b) res"
  | AttachPromise addr "('a, 'b) res \<Rightarrow> addr"

fun owner :: "('a, 'b) Callback \<Rightarrow> addr" where
  "owner (AttachVoid a f) = a"
| "owner (AttachResult a f) = a"
| "owner (AttachPromise a g) = a"

type_synonym ('a, 'b) State = "(('a, 'b) res, ('a, 'b) Callback) PromiseState"

text \<open>The shared contexts of the aggregate combinators.\<close>

record 'a AllCtx =
  success_counter :: nat
  results :: "'a val list"

record 'b AnyCtx =
  failure_counter :: nat
  errors :: "'b val list"

text \<open>
  \<open>heap\<close> maps an address to the state that lives there; an address at or above
  \<open>limit\<close> was never allocated, and \<open>None\<close> below it is a state that was destroyed.
  \<open>posted\<close> is what \<^verbatim>\<open>Executor::Post\<close> received and has not run yet: the executor, and
  the closure that \<^verbatim>\<open>WrapVariantCallback\<close> built from a continuation and its argument.
  \<open>invoked\<close> records each continuation that was called, by the state it was attached to;
  \<open>user_log\<close> each call of a user function with its argument; \<open>destroyed\<close> each
  coroutine frame destroyed.
\<close>

record ('a, 'b) World =
  heap :: "addr \<Rightarrow> ('a, 'b) State option"
  limit :: nat
  posted :: "(nat \<times> ('a, 'b) Callback \<times> ('a, 'b) res) list"
  invoked :: "addr list"
  user_log :: "(nat \<times> ('a, 'b) res) list"
  destroyed :: "nat list"
  all_ctx :: "nat \<Rightarrow> 'a AllCtx option"
  any_ctx :: "nat \<Rightarrow> 'b AnyCtx option"
  ctx_limit :: nat

definition empty_world :: "('a, 'b) World" where
  "empty_world = \<lparr>heap = (\<lambda>_. None), limit = 0, posted = [], invoked = [], user_log = [],
     destroyed = [], all_ctx = (\<lambda>_. None), any_ctx = (\<lambda>_. None), ctx_limit = 0\<rparr>"

text \<open>\<^verbatim>\<open>weak_ptr::lock\<close>: the state at an address, when it is alive.\<close>

definition lock :: "('a, 'b) World \<Rightarrow> addr \<Rightarrow> ('a, 'b) State option" where
  "lock w a = (if a < limit w then heap w a else None)"

definition put :: "('a, 'b) World \<Rightarrow> addr \<Rightarrow> ('a, 'b) State \<Rightarrow> ('a, 'b) World" where
  "put w a s = w\<lparr>heap := (heap w)(a \<mapsto> s)\<rparr>"

text \<open>\<^verbatim>\<open>std::make_shared<PromiseState<T, E>>(exec)\<close>.\<close>

definition alloc :: "('a, 'b) World \<Rightarrow> nat option \<Rightarrow> addr \<times> ('a, 'b) World" where
  "alloc w ex = (limit w, w\<lparr>heap := (heap w)(limit w \<mapsto> new_state ex), limit := Suc (limit w)\<rparr>)"

text \<open>What can go wrong where the source assumes it cannot.\<close>

datatype fault = NullDeref | DanglingPointer | BadOptionalAccess | AssertFailed

text \<open>
  How far a state is from a terminal status; the sum over the heap decreases along every
  chain of calls below.
\<close>

fun stw :: "PromiseStatus \<Rightarrow> nat" where
  "stw kInit = 2"
| "stw kPreResolved = 1"
| "stw kPreRejected = 1"
| "stw kResolved = 0"
| "stw kRejected = 0"
| "stw kCancelled = 0"

definition wt :: "('a, 'b) State option \<Rightarrow> nat" where
  "wt x = (case x of None \<Rightarrow> 0 | Some s \<Rightarrow> stw (m_status s))"

definition wsum :: "('a, 'b) World \<Rightarrow> nat" where
  "wsum w = (\<Sum>a<limit w. wt (heap w a))"

lemma wsum_decrease:
  assumes "lock w a = Some s" and "limit w' = limit w"
    and "heap w' = (heap w)(a \<mapsto> s')" and "stw (m_status s') < stw (m_status s)"
  shows "wsum w' < wsum w"
proof -
  from assms(1) have a: "a < limit w" and h: "heap w a = Some s"
    by (auto simp: lock_def split: if_splits)
  have "(\<Sum>x<limit w. wt (heap w' x)) < (\<Sum>x<limit w. wt (heap w x))"
  proof (rule sum_strict_mono_ex1)
    show "finite {..<limit w}" by simp
    show "\<forall>x\<in>{..<limit w}. wt (heap w' x) \<le> wt (heap w x)"
      using assms(3) assms(4) h by (auto simp: wt_def)
    show "\<exists>x\<in>{..<limit w}. wt (heap w' x) < wt (heap w x)"
      using a assms(3) assms(4) h by (auto simp: wt_def intro!: bexI[of _ a])
  qed
  then show ?thesis by (simp add: wsum_def assms(2))
qed

lemma wsum_same:
  assumes "limit w' = limit w"
    and "\<And>x. x < limit w \<Longrightarrow> wt (heap w' x) = wt (heap w x)"
  shows "wsum w' = wsum w"
  using assms by (simp add: wsum_def)

lemma lock_put [simp]:
  "lock (put w a s) b = (if b = a then (if a < limit w then Some s else None) else lock w b)"
  by (simp add: lock_def put_def)

lemma limit_put [simp]: "limit (put w a s) = limit w"
  by (simp add: put_def)

lemma lock_lt: "lock w a = Some s \<Longrightarrow> a < limit w"
  by (simp add: lock_def split: if_splits)

lemma wsum_put_same:
  "lock w a = Some s \<Longrightarrow> m_status s' = m_status s \<Longrightarrow> wsum (put w a s') = wsum w"
  by (rule wsum_same) (auto simp: put_def wt_def lock_def split: if_splits)

lemma wsum_put_less:
  "lock w a = Some s \<Longrightarrow> stw (m_status s') < stw (m_status s) \<Longrightarrow> wsum (put w a s') < wsum w"
  by (rule wsum_decrease[where a = a and s = s and s' = s']) (auto simp: put_def)

lemma wsum_fields [simp]:
  "wsum (w\<lparr>posted := p\<rparr>) = wsum w"
  "wsum (w\<lparr>invoked := i\<rparr>) = wsum w"
  "wsum (w\<lparr>user_log := u\<rparr>) = wsum w"
  "wsum (w\<lparr>destroyed := d\<rparr>) = wsum w"
  "wsum (w\<lparr>all_ctx := c1\<rparr>) = wsum w"
  "wsum (w\<lparr>any_ctx := c2\<rparr>) = wsum w"
  "wsum (w\<lparr>ctx_limit := n\<rparr>) = wsum w"
  by (simp_all add: wsum_def)

lemma lock_fields [simp]:
  "lock (w\<lparr>posted := p\<rparr>) a = lock w a"
  "lock (w\<lparr>invoked := i\<rparr>) a = lock w a"
  "lock (w\<lparr>user_log := u\<rparr>) a = lock w a"
  "lock (w\<lparr>destroyed := d\<rparr>) a = lock w a"
  "lock (w\<lparr>all_ctx := c1\<rparr>) a = lock w a"
  "lock (w\<lparr>any_ctx := c2\<rparr>) a = lock w a"
  "lock (w\<lparr>ctx_limit := n\<rparr>) a = lock w a"
  by (simp_all add: lock_def)

lemma put_put [simp]: "put (put w a s) a s' = put w a s'"
  by (simp add: put_def)

lemma put_fields [simp]:
  "put (w\<lparr>posted := p\<rparr>) a s = (put w a s)\<lparr>posted := p\<rparr>"
  "put (w\<lparr>invoked := i\<rparr>) a s = (put w a s)\<lparr>invoked := i\<rparr>"
  "put (w\<lparr>user_log := u\<rparr>) a s = (put w a s)\<lparr>user_log := u\<rparr>"
  "put (w\<lparr>destroyed := d\<rparr>) a s = (put w a s)\<lparr>destroyed := d\<rparr>"
  "put (w\<lparr>all_ctx := c1\<rparr>) a s = (put w a s)\<lparr>all_ctx := c1\<rparr>"
  "put (w\<lparr>any_ctx := c2\<rparr>) a s = (put w a s)\<lparr>any_ctx := c2\<rparr>"
  "put (w\<lparr>ctx_limit := n\<rparr>) a s = (put w a s)\<lparr>ctx_limit := n\<rparr>"
  by (simp_all add: put_def)

lemma fields_put [simp]:
  "posted (put w a s) = posted w"
  "invoked (put w a s) = invoked w"
  "user_log (put w a s) = user_log w"
  "destroyed (put w a s) = destroyed w"
  "all_ctx (put w a s) = all_ctx w"
  "any_ctx (put w a s) = any_ctx w"
  "ctx_limit (put w a s) = ctx_limit w"
  by (simp_all add: put_def)

section \<open>Cancellation\<close>

text \<open>
  \<^verbatim>\<open>PromiseStateBase::Cancel\<close> and the override \<^verbatim>\<open>PromiseStateInternal::OnCancel\<close>.
  \<^verbatim>\<open>next_\<close> is a raw pointer: following it to a destroyed state is a fault.
\<close>

function Cancel :: "('a, 'b) World \<Rightarrow> addr \<Rightarrow> fault + (bool \<times> ('a, 'b) World)"
  and OnCancel :: "('a, 'b) World \<Rightarrow> addr \<Rightarrow> fault + (bool \<times> ('a, 'b) World)"
where
  "Cancel w a =
     (case lock w a of
        None \<Rightarrow> Inl DanglingPointer
      | Some s \<Rightarrow>
          if m_status s = kInit \<or> m_status s = kPreRejected \<or> m_status s = kPreResolved
          then OnCancel
                 ((put w a (s\<lparr>m_status := kCancelled\<rparr>))
                    \<lparr>destroyed := destroyed w @ (case m_co_handle s of None \<Rightarrow> [] | Some h \<Rightarrow> [h])\<rparr>)
                 a
          else Inr (False, w))"
| "OnCancel w a =
     (case lock w a of
        None \<Rightarrow> Inl DanglingPointer
      | Some s \<Rightarrow>
          (case m_next s of
             None \<Rightarrow> Inr (True, put w a (s\<lparr>m_cb := None, m_storage := None\<rparr>))
           | Some n \<Rightarrow> Cancel (put w a (s\<lparr>m_cb := None, m_storage := None\<rparr>)) n))"
  by pat_completeness auto
termination
proof (relation "measures [\<lambda>x. case x of Inl (w, a) \<Rightarrow> wsum w | Inr (w, a) \<Rightarrow> wsum w,
                            \<lambda>x. case x of Inl _ \<Rightarrow> 0 | Inr _ \<Rightarrow> 1]", goal_cases)
  case 1
  then show ?case by simp
next
  case (2 w a s)
  have "wsum ((put w a (s\<lparr>m_status := kCancelled\<rparr>))
          \<lparr>destroyed := destroyed w @ (case m_co_handle s of None \<Rightarrow> [] | Some h \<Rightarrow> [h])\<rparr>) < wsum w"
    using 2 by (intro wsum_decrease[where a = a and s = s and s' = "s\<lparr>m_status := kCancelled\<rparr>"])
      (auto simp: put_def)
  then show ?case by simp
next
  case (3 w a s n)
  have "wsum (put w a (s\<lparr>m_cb := None, m_storage := None\<rparr>)) = wsum w"
    using 3(1) by (intro wsum_same) (auto simp: put_def wt_def lock_def split: if_splits)
  then show ?case by simp
qed

section \<open>Settling, delivery and the continuations of Then\<close>

text \<open>\<^verbatim>\<open>PromiseStateBase::Watch\<close>, called on \<open>this\<close> with \<open>other\<close>.\<close>

definition Watch :: "('a, 'b) World \<Rightarrow> addr \<Rightarrow> addr \<Rightarrow> fault + ('a, 'b) World" where
  "Watch w this other =
     (case lock w this of
        None \<Rightarrow> Inl DanglingPointer
      | Some st \<Rightarrow>
          (let w1 = put w this (st\<lparr>m_prev := Some other\<rparr>) in
           case lock w1 other of
             None \<Rightarrow> Inl DanglingPointer
           | Some so \<Rightarrow> Inr (put w1 other (so\<lparr>m_next := Some this\<rparr>))))"

text \<open>
  \<^verbatim>\<open>PromiseState<T, E>::next_propagator\<close>: a virtual call through \<^verbatim>\<open>next_\<close>. Every state
  of this heap is a \<^verbatim>\<open>PromiseState<T, E>\<close> with \<^verbatim>\<open>T\<close> not \<^verbatim>\<open>void\<close>, whose \<^verbatim>\<open>propagator()\<close>
  is the state itself.
\<close>

definition next_propagator :: "('a, 'b) World \<Rightarrow> ('a, 'b) State \<Rightarrow> fault + addr option" where
  "next_propagator w s =
     (case m_next s of
        None \<Rightarrow> Inr None
      | Some n \<Rightarrow> (case lock w n of None \<Rightarrow> Inl DanglingPointer | Some _ \<Rightarrow> Inr (Some n)))"

text \<open>A caller that ignores the boolean a call returns.\<close>

definition discard :: "fault + (bool \<times> 'w) \<Rightarrow> fault + 'w" where
  "discard x = (case x of Inl e \<Rightarrow> Inl e | Inr (b, w) \<Rightarrow> Inr w)"

text \<open>\<^verbatim>\<open>--counter\<close> on a \<^verbatim>\<open>std::size_t\<close> (64 bits).\<close>

definition decr :: "nat \<Rightarrow> nat" where
  "decr c = (if c = 0 then 2 ^ 64 - 1 else c - 1)"

text \<open>
  The member functions of \<^verbatim>\<open>PromiseStateInternal\<close> and \<^verbatim>\<open>PromiseState\<close>, of \<^verbatim>\<open>Resolver\<close>,
  and the bodies of the closures, which call each other: a continuation run inline settles
  the next state, whose continuation may run inline in turn.

  \<^verbatim>\<open>PropagateResult\<close> and \<^verbatim>\<open>PropagatePromise\<close> take a pointer (\<open>None\<close> is \<^verbatim>\<open>nullptr\<close>);
  \<^verbatim>\<open>PropagateResult\<close> branches on the pointer, as the source does.
  In \<open>InvokeFn\<close>, \<^verbatim>\<open>ctx\<close> is a shared pointer that the closure owns, and \<^verbatim>\<open>idx\<close> is below the
  size of the vector by construction; \<^verbatim>\<open>std::move(ctx->results)\<close> is modelled as a copy.
\<close>

function
  TryInvokeCallback :: "('a, 'b) World \<Rightarrow> addr \<Rightarrow> fault + ('a, 'b) World" and
  RunInExecutor :: "('a, 'b) World \<Rightarrow> addr \<Rightarrow> ('a, 'b) Callback \<Rightarrow> ('a, 'b) res
     \<Rightarrow> fault + ('a, 'b) World" and
  InvokeCallback :: "('a, 'b) World \<Rightarrow> ('a, 'b) Callback \<Rightarrow> ('a, 'b) res
     \<Rightarrow> fault + ('a, 'b) World" and
  InvokeFn :: "('a, 'b) World \<Rightarrow> VoidFn \<Rightarrow> ('a, 'b) res \<Rightarrow> fault + ('a, 'b) World" and
  PropagateResult :: "('a, 'b) World \<Rightarrow> addr \<Rightarrow> ('a, 'b) res option
     \<Rightarrow> fault + ('a, 'b) World" and
  PropagatePromise :: "('a, 'b) World \<Rightarrow> addr \<Rightarrow> addr option \<Rightarrow> fault + ('a, 'b) World" and
  Attach_result :: "('a, 'b) World \<Rightarrow> addr \<Rightarrow> addr \<Rightarrow> (('a, 'b) res \<Rightarrow> ('a, 'b) res)
     \<Rightarrow> nat option \<Rightarrow> fault + ('a, 'b) World" and
  AddCallback :: "('a, 'b) World \<Rightarrow> addr \<Rightarrow> ('a, 'b) Callback \<Rightarrow> nat option
     \<Rightarrow> fault + ('a, 'b) World" and
  Resolve :: "('a, 'b) World \<Rightarrow> addr \<Rightarrow> 'a val \<Rightarrow> fault + (bool \<times> ('a, 'b) World)" and
  Reject :: "('a, 'b) World \<Rightarrow> addr \<Rightarrow> 'b val \<Rightarrow> fault + (bool \<times> ('a, 'b) World)" and
  Resolver_Resolve :: "('a, 'b) World \<Rightarrow> addr \<Rightarrow> 'a val
     \<Rightarrow> fault + (bool \<times> ('a, 'b) World)" and
  Resolver_Reject :: "('a, 'b) World \<Rightarrow> addr \<Rightarrow> 'b val
     \<Rightarrow> fault + (bool \<times> ('a, 'b) World)"
where
  "TryInvokeCallback w a =
     (case lock w a of
        None \<Rightarrow> Inl DanglingPointer
      | Some s \<Rightarrow>
          (case m_cb s of
             None \<Rightarrow> Inr w
           | Some cb \<Rightarrow>
               if m_status s \<noteq> kPreResolved \<and> m_status s \<noteq> kPreRejected then Inr w
               else
                 (case m_storage s of
                    None \<Rightarrow> Inl BadOptionalAccess
                  | Some val \<Rightarrow>
                      RunInExecutor
                        (put w a (s\<lparr>m_cb := None, m_storage := None,
                           m_status := (if m_status s = kPreResolved then kResolved
                                        else if m_status s = kPreRejected then kRejected
                                        else m_status s)\<rparr>))
                        a cb val)))"
| "RunInExecutor w a cb val =
     (case lock w a of
        None \<Rightarrow> Inl DanglingPointer
      | Some s \<Rightarrow>
          (case m_exec s of
             Some ex \<Rightarrow> Inr (w\<lparr>posted := posted w @ [(ex, cb, val)]\<rparr>)
           | None \<Rightarrow> InvokeCallback w cb val))"
| "InvokeCallback w cb v =
     (case cb of
        AttachVoid self f \<Rightarrow>
          (case lock w self of
             None \<Rightarrow> Inr (w\<lparr>invoked := invoked w @ [self]\<rparr>)
           | Some p \<Rightarrow> InvokeFn (w\<lparr>invoked := invoked w @ [self]\<rparr>) f v)
      | AttachResult self f \<Rightarrow>
          (case lock w self of
             None \<Rightarrow> Inr (w\<lparr>invoked := invoked w @ [self]\<rparr>)
           | Some state_ptr \<Rightarrow>
               (case next_propagator w state_ptr of
                  Inl e \<Rightarrow> Inl e
                | Inr None \<Rightarrow> Inr (w\<lparr>invoked := invoked w @ [self]\<rparr>)
                | Inr (Some pp) \<Rightarrow>
                    PropagateResult (w\<lparr>invoked := invoked w @ [self]\<rparr>) pp (Some (f v))))
      | AttachPromise self g \<Rightarrow>
          (case lock w self of
             None \<Rightarrow> Inr (w\<lparr>invoked := invoked w @ [self]\<rparr>)
           | Some state_ptr \<Rightarrow>
               (case next_propagator w state_ptr of
                  Inl e \<Rightarrow> Inl e
                | Inr None \<Rightarrow> Inr (w\<lparr>invoked := invoked w @ [self]\<rparr>)
                | Inr (Some pp) \<Rightarrow>
                    PropagatePromise (w\<lparr>invoked := invoked w @ [self]\<rparr>) pp (Some (g v)))))"
| "InvokeFn w fn r =
     (case fn of
        UserFn n \<Rightarrow> Inr (w\<lparr>user_log := user_log w @ [(n, r)]\<rparr>)
      | AllFn idx ctx resolver \<Rightarrow>
          if IsError r then
            (case Error r of
               None \<Rightarrow> Inl NullDeref
             | Some e \<Rightarrow> discard (Resolver_Reject w resolver e))
          else
            (case all_ctx w ctx of
               None \<Rightarrow> Inl DanglingPointer
             | Some c \<Rightarrow>
                 (case Value r of
                    None \<Rightarrow> Inl NullDeref
                  | Some v \<Rightarrow>
                      if decr (success_counter c) > 0 then
                        Inr (w\<lparr>all_ctx := (all_ctx w)(ctx \<mapsto>
                               c\<lparr>results := (results c)[idx := v],
                                 success_counter := decr (success_counter c)\<rparr>)\<rparr>)
                      else
                        discard
                          (Resolver_Resolve
                             (w\<lparr>all_ctx := (all_ctx w)(ctx \<mapsto>
                                  c\<lparr>results := (results c)[idx := v],
                                    success_counter := decr (success_counter c)\<rparr>)\<rparr>)
                             resolver (Vec ((results c)[idx := v])))))
      | AnyFn idx ctx resolver \<Rightarrow>
          if IsError r then
            (case any_ctx w ctx of
               None \<Rightarrow> Inl DanglingPointer
             | Some c \<Rightarrow>
                 (case Error r of
                    None \<Rightarrow> Inl NullDeref
                  | Some e \<Rightarrow>
                      if decr (failure_counter c) = 0 then
                        discard
                          (Resolver_Reject
                             (w\<lparr>any_ctx := (any_ctx w)(ctx \<mapsto>
                                  c\<lparr>errors := (errors c)[idx := e],
                                    failure_counter := decr (failure_counter c)\<rparr>)\<rparr>)
                             resolver (Vec ((errors c)[idx := e])))
                      else
                        Inr (w\<lparr>any_ctx := (any_ctx w)(ctx \<mapsto>
                               c\<lparr>errors := (errors c)[idx := e],
                                 failure_counter := decr (failure_counter c)\<rparr>)\<rparr>)))
          else
            (case Value r of
               None \<Rightarrow> Inl NullDeref
             | Some v \<Rightarrow> discard (Resolver_Resolve w resolver v)))"
| "PropagateResult w this result =
     (case result of
        Some r \<Rightarrow>
          (case Value r of
             None \<Rightarrow> Inl NullDeref
           | Some v \<Rightarrow> discard (Resolve w this v))
      | None \<Rightarrow> Inl NullDeref)"
| "PropagatePromise w this promise =
     (case promise of
        None \<Rightarrow> Inl NullDeref
      | Some state \<Rightarrow> Attach_result w state this (\<lambda>r. r) None)"
| "Attach_result w this nxt f ex =
     (case Watch w nxt this of
        Inl e \<Rightarrow> Inl e
      | Inr w1 \<Rightarrow> AddCallback w1 this (AttachResult this f) ex)"
| "AddCallback w a cb ex =
     (case lock w a of
        None \<Rightarrow> Inl DanglingPointer
      | Some s \<Rightarrow> TryInvokeCallback (put w a (s\<lparr>m_exec := ex, m_cb := Some cb\<rparr>)) a)"
| "Resolve w a v =
     (case lock w a of
        None \<Rightarrow> Inl DanglingPointer
      | Some s \<Rightarrow>
          if m_status s \<noteq> kInit then Inr (False, w)
          else
            (case TryInvokeCallback
                    (put w a (s\<lparr>m_status := kPreResolved, m_storage := Some (kValue v)\<rparr>)) a of
               Inl e \<Rightarrow> Inl e
             | Inr w' \<Rightarrow> Inr (True, w')))"
| "Reject w a err =
     (case lock w a of
        None \<Rightarrow> Inl DanglingPointer
      | Some s \<Rightarrow>
          if m_status s \<noteq> kInit then Inr (False, w)
          else
            (case TryInvokeCallback
                    (put w a (s\<lparr>m_status := kPreRejected, m_storage := Some (kError err)\<rparr>)) a of
               Inl e \<Rightarrow> Inl e
             | Inr w' \<Rightarrow> Inr (True, w')))"
| "Resolver_Resolve w stat v =
     (case lock w stat of
        None \<Rightarrow> Inr (False, w)
      | Some s \<Rightarrow> Resolve w stat v)"
| "Resolver_Reject w stat e =
     (case lock w stat of
        None \<Rightarrow> Inr (False, w)
      | Some s \<Rightarrow> Reject w stat e)"
  by pat_completeness auto

lemma wsum_Watch: "Watch w a b = Inr w' \<Longrightarrow> wsum w' = wsum w"
  by (auto simp: Watch_def Let_def wsum_put_same split: option.splits if_splits)

text \<open>
  Every chain of calls ends: a delivery or a settlement moves one state of the heap closer
  to a terminal status, and between two of them the calls only descend.
\<close>

termination TryInvokeCallback
proof (relation "measures
   [\<lambda>x. wsum (case_sum (case_sum (case_sum fst (case_sum fst fst)) (case_sum fst (case_sum fst fst)))
                        (case_sum (case_sum fst (case_sum fst fst)) (case_sum fst (case_sum fst fst))) x),
    case_sum (case_sum (case_sum (\<lambda>_. 0) (case_sum (\<lambda>_. 6) (\<lambda>_. 5)))
                       (case_sum (\<lambda>_. 4) (case_sum (\<lambda>_. 3) (\<lambda>_. 3))))
             (case_sum (case_sum (\<lambda>_. 2) (case_sum (\<lambda>_. 1) (\<lambda>_. 1)))
                       (case_sum (\<lambda>_. 1) (case_sum (\<lambda>_. 2) (\<lambda>_. (2::nat)))))]", goal_cases)
  case 1
  then show ?case by simp
next
  case 2
  then show ?case by (auto intro!: wsum_put_less)
next
  case 13
  then show ?case by (simp add: wsum_Watch)
next
  case (14 w a cb ex s)
  have "wsum (put w a (s\<lparr>m_exec := ex, m_cb := Some cb\<rparr>)) = wsum w"
    using 14 by (intro wsum_put_same[where s = s]) simp_all
  then show ?case by simp
next
  case 15
  then show ?case by (auto intro!: wsum_put_less)
next
  case 16
  then show ?case by (auto intro!: wsum_put_less)
qed simp_all

lemmas deliver_simps =
  TryInvokeCallback.simps RunInExecutor.simps AddCallback.simps Resolve.simps Reject.simps
  Resolver_Resolve.simps Resolver_Reject.simps

lemmas closure_simps =
  InvokeCallback.simps InvokeFn.simps PropagateResult.simps PropagatePromise.simps
  Attach_result.simps

declare deliver_simps [simp del] closure_simps [simp del]

text \<open>
  The other two \<^verbatim>\<open>Attach\<close> overloads, and \<^verbatim>\<open>Promise::Then\<close>, which builds the next
  promise with the preferred executor and returns it.
\<close>

definition Attach_void :: "('a, 'b) World \<Rightarrow> addr \<Rightarrow> VoidFn \<Rightarrow> nat option
    \<Rightarrow> fault + ('a, 'b) World" where
  "Attach_void w this f ex = AddCallback w this (AttachVoid this f) ex"

definition Attach_promise :: "('a, 'b) World \<Rightarrow> addr \<Rightarrow> addr \<Rightarrow> (('a, 'b) res \<Rightarrow> addr)
    \<Rightarrow> nat option \<Rightarrow> fault + ('a, 'b) World" where
  "Attach_promise w this nxt g ex =
     (case Watch w nxt this of
        Inl e \<Rightarrow> Inl e
      | Inr w1 \<Rightarrow> AddCallback w1 this (AttachPromise this g) ex)"

definition GetExecutor :: "('r, 'c) PromiseState \<Rightarrow> nat option" where
  "GetExecutor s = m_exec s"

definition PreferExecutor :: "('r, 'c) PromiseState \<Rightarrow> nat option \<Rightarrow> nat option" where
  "PreferExecutor s prefer = (case prefer of Some e \<Rightarrow> Some e | None \<Rightarrow> GetExecutor s)"

definition Then_void :: "('a, 'b) World \<Rightarrow> addr \<Rightarrow> VoidFn \<Rightarrow> nat option
    \<Rightarrow> fault + ('a, 'b) World" where
  "Then_void w p f ex = Attach_void w p f ex"

definition Then_result :: "('a, 'b) World \<Rightarrow> addr \<Rightarrow> (('a, 'b) res \<Rightarrow> ('a, 'b) res)
    \<Rightarrow> nat option \<Rightarrow> fault + (addr \<times> ('a, 'b) World)" where
  "Then_result w p f ex =
     (case lock w p of
        None \<Rightarrow> Inl DanglingPointer
      | Some s \<Rightarrow>
          (case alloc w (PreferExecutor s ex) of
             (next_promise, w1) \<Rightarrow>
               (case Attach_result w1 p next_promise f ex of
                  Inl e \<Rightarrow> Inl e
                | Inr w2 \<Rightarrow> Inr (next_promise, w2))))"

definition Then_promise :: "('a, 'b) World \<Rightarrow> addr \<Rightarrow> (('a, 'b) res \<Rightarrow> addr)
    \<Rightarrow> nat option \<Rightarrow> fault + (addr \<times> ('a, 'b) World)" where
  "Then_promise w p g ex =
     (case lock w p of
        None \<Rightarrow> Inl DanglingPointer
      | Some s \<Rightarrow>
          (case alloc w (PreferExecutor s ex) of
             (next_promise, w1) \<Rightarrow>
               (case Attach_promise w1 p next_promise g ex of
                  Inl e \<Rightarrow> Inl e
                | Inr w2 \<Rightarrow> Inr (next_promise, w2))))"

section \<open>The specialisation for void\<close>

text \<open>
  \<^verbatim>\<open>PromiseState<void, E>\<close> stores a \<^verbatim>\<open>Result<void, E>\<close> and accepts only continuations
  that return nothing; here the continuation is a function of the user, named by a number.
  The world of a coroutine that returns \<^verbatim>\<open>Promise<void, E>\<close> is the state behind the
  \<^verbatim>\<open>promise_\<close> member of its \<^verbatim>\<open>promise_type\<close> (\<open>None\<close> once destroyed), what was posted
  to executors, and the log of the calls of user functions.
\<close>

record 'e VoidWorld =
  v_state :: "('e ResultVoid, nat) PromiseState option"
  v_posted :: "(nat \<times> nat \<times> 'e ResultVoid) list"
  v_log :: "(nat \<times> 'e ResultVoid) list"

definition new_void_world :: "nat option \<Rightarrow> 'e VoidWorld" where
  "new_void_world ex = \<lparr>v_state = Some (new_state ex), v_posted = [], v_log = []\<rparr>"

text \<open>The closure of \<^verbatim>\<open>PromiseState<void, E>::Attach\<close>: it locks the weak pointer, then calls \<^verbatim>\<open>f\<close>.\<close>

definition InvokeCallback_void :: "'e VoidWorld \<Rightarrow> nat \<Rightarrow> 'e ResultVoid \<Rightarrow> 'e VoidWorld" where
  "InvokeCallback_void w f v =
     (case v_state w of
        None \<Rightarrow> w
      | Some p \<Rightarrow> w\<lparr>v_log := v_log w @ [(f, v)]\<rparr>)"

definition RunInExecutor_void :: "'e VoidWorld \<Rightarrow> nat \<Rightarrow> 'e ResultVoid \<Rightarrow> fault + 'e VoidWorld" where
  "RunInExecutor_void w cb val =
     (case v_state w of
        None \<Rightarrow> Inl DanglingPointer
      | Some s \<Rightarrow>
          (case m_exec s of
             Some ex \<Rightarrow> Inr (w\<lparr>v_posted := v_posted w @ [(ex, cb, val)]\<rparr>)
           | None \<Rightarrow> Inr (InvokeCallback_void w cb val)))"

definition TryInvokeCallback_void :: "'e VoidWorld \<Rightarrow> fault + 'e VoidWorld" where
  "TryInvokeCallback_void w =
     (case v_state w of
        None \<Rightarrow> Inl DanglingPointer
      | Some s \<Rightarrow>
          (case m_cb s of
             None \<Rightarrow> Inr w
           | Some cb \<Rightarrow>
               if m_status s \<noteq> kPreResolved \<and> m_status s \<noteq> kPreRejected then Inr w
               else
                 (case m_storage s of
                    None \<Rightarrow> Inl BadOptionalAccess
                  | Some val \<Rightarrow>
                      RunInExecutor_void
                        (w\<lparr>v_state := Some (s\<lparr>m_cb := None, m_storage := None,
                           m_status := (if m_status s = kPreResolved then kResolved
                                        else if m_status s = kPreRejected then kRejected
                                        else m_status s)\<rparr>)\<rparr>)
                        cb val)))"

definition Reject_void :: "'e VoidWorld \<Rightarrow> 'e \<Rightarrow> fault + (bool \<times> 'e VoidWorld)" where
  "Reject_void w err =
     (case v_state w of
        None \<Rightarrow> Inl DanglingPointer
      | Some s \<Rightarrow>
          if m_status s \<noteq> kInit then Inr (False, w)
          else
            (case TryInvokeCallback_void
                    (w\<lparr>v_state := Some (s\<lparr>m_status := kPreRejected,
                          m_storage := Some (ResultVoid_of_error err)\<rparr>)\<rparr>) of
               Inl e \<Rightarrow> Inl e
             | Inr w' \<Rightarrow> Inr (True, w')))"

definition Resolve_void :: "'e VoidWorld \<Rightarrow> fault + (bool \<times> 'e VoidWorld)" where
  "Resolve_void w =
     (case v_state w of
        None \<Rightarrow> Inl DanglingPointer
      | Some s \<Rightarrow>
          if m_status s \<noteq> kInit then Inr (False, w)
          else
            (case TryInvokeCallback_void
                    (w\<lparr>v_state := Some (s\<lparr>m_status := kPreResolved,
                          m_storage := Some ResultVoid_default\<rparr>)\<rparr>) of
               Inl e \<Rightarrow> Inl e
             | Inr w' \<Rightarrow> Inr (True, w')))"

definition Resolver_Reject_void :: "'e VoidWorld \<Rightarrow> 'e \<Rightarrow> fault + (bool \<times> 'e VoidWorld)" where
  "Resolver_Reject_void w e =
     (case v_state w of
        None \<Rightarrow> Inr (False, w)
      | Some s \<Rightarrow> Reject_void w e)"

definition Resolver_Resolve_void :: "'e VoidWorld \<Rightarrow> fault + (bool \<times> 'e VoidWorld)" where
  "Resolver_Resolve_void w =
     (case v_state w of
        None \<Rightarrow> Inr (False, w)
      | Some s \<Rightarrow> Resolve_void w)"

text \<open>
  \<^verbatim>\<open>CoroutineTrait<void, E>::promise_type::return_value\<close>, the overload for an error and
  the overload for a \<^verbatim>\<open>Result<void, E>\<close>.
\<close>

definition return_value_error_void :: "'e VoidWorld \<Rightarrow> 'e \<Rightarrow> fault + 'e VoidWorld" where
  "return_value_error_void w e = discard (Resolver_Reject_void w e)"

definition return_value_void :: "'e VoidWorld \<Rightarrow> 'e ResultVoid \<Rightarrow> fault + 'e VoidWorld" where
  "return_value_void w r =
     (if \<not> IsValue_void r then discard (Resolver_Resolve_void w)
      else
        (case Error_void r of
           None \<Rightarrow> Inl BadOptionalAccess
         | Some e \<Rightarrow> discard (Resolver_Reject_void w e)))"

section \<open>The aggregate combinators\<close>

text \<open>
  \<^verbatim>\<open>MkAllPromise\<close> and \<^verbatim>\<open>MkAnyPromise\<close> over the promises at the addresses \<open>ins\<close>, the
  loop over the iterators being a recursion over the list with the index \<^verbatim>\<open>idx\<close>. The
  vectors of the context are built with \<open>d\<close>, the value-initialised element. The counter is
  the \<^verbatim>\<open>std::distance\<close> of the iterators, below \<open>2 ^ 64\<close>.
\<close>

fun MkAll_loop :: "('a, 'b) World \<Rightarrow> addr list \<Rightarrow> nat \<Rightarrow> nat \<Rightarrow> addr \<Rightarrow> nat option
    \<Rightarrow> fault + ('a, 'b) World" where
  "MkAll_loop w [] idx ctx resolver ex = Inr w"
| "MkAll_loop w (it # rest) idx ctx resolver ex =
     (case Then_void w it (AllFn idx ctx resolver) ex of
        Inl e \<Rightarrow> Inl e
      | Inr w' \<Rightarrow> MkAll_loop w' rest (Suc idx) ctx resolver ex)"

definition MkAllPromise :: "('a, 'b) World \<Rightarrow> addr list \<Rightarrow> nat option \<Rightarrow> 'a val
    \<Rightarrow> fault + (addr \<times> ('a, 'b) World)" where
  "MkAllPromise w ins ex d =
     (case alloc w None of
        (promise, w1) \<Rightarrow>
          if ins = [] then
            (case Resolver_Resolve w1 promise (Vec []) of
               Inl e \<Rightarrow> Inl e
             | Inr (b, w2) \<Rightarrow> Inr (promise, w2))
          else
            (case MkAll_loop
                    (w1\<lparr>all_ctx := (all_ctx w1)(ctx_limit w1 \<mapsto>
                            \<lparr>success_counter = length ins, results = replicate (length ins) d\<rparr>),
                        ctx_limit := Suc (ctx_limit w1)\<rparr>)
                    ins 0 (ctx_limit w1) promise ex of
               Inl e \<Rightarrow> Inl e
             | Inr w3 \<Rightarrow> Inr (promise, w3)))"

fun MkAny_loop :: "('a, 'b) World \<Rightarrow> addr list \<Rightarrow> nat \<Rightarrow> nat \<Rightarrow> addr \<Rightarrow> nat option
    \<Rightarrow> fault + ('a, 'b) World" where
  "MkAny_loop w [] idx ctx resolver ex = Inr w"
| "MkAny_loop w (it # rest) idx ctx resolver ex =
     (case Then_void w it (AnyFn idx ctx resolver) ex of
        Inl e \<Rightarrow> Inl e
      | Inr w' \<Rightarrow> MkAny_loop w' rest (Suc idx) ctx resolver ex)"

definition MkAnyPromise :: "('a, 'b) World \<Rightarrow> addr list \<Rightarrow> nat option \<Rightarrow> 'b val
    \<Rightarrow> fault + (addr \<times> ('a, 'b) World)" where
  "MkAnyPromise w ins ex d =
     (case alloc w None of
        (promise, w1) \<Rightarrow>
          if ins = [] then Inl AssertFailed
          else
            (case MkAny_loop
                    (w1\<lparr>any_ctx := (any_ctx w1)(ctx_limit w1 \<mapsto>
                            \<lparr>failure_counter = length ins, errors = replicate (length ins) d\<rparr>),
                        ctx_limit := Suc (ctx_limit w1)\<rparr>)
                    ins 0 (ctx_limit w1) promise ex of
               Inl e \<Rightarrow> Inl e
             | Inr w3 \<Rightarrow> Inr (promise, w3)))"

section \<open>Sequences of operations\<close>

text \<open>\<^verbatim>\<open>Resolver::Cancel\<close>.\<close>

definition Resolver_Cancel :: "('a, 'b) World \<Rightarrow> addr \<Rightarrow> fault + (bool \<times> ('a, 'b) World)" where
  "Resolver_Cancel w stat =
     (case lock w stat of
        None \<Rightarrow> Inr (False, w)
      | Some s \<Rightarrow> Cancel w stat)"

text \<open>
  What the program around the library can do to a world: build a promise, settle or cancel
  one through its resolver, attach a continuation with one of the three \<^verbatim>\<open>Then\<close>, build
  an aggregate, and (the executor) run one of the closures that were posted.
\<close>

datatype ('a, 'b) Op =
    OpNew "nat option"
  | OpResolve addr "'a val"
  | OpReject addr "'b val"
  | OpCancel addr
  | OpThenVoid addr VoidFn "nat option"
  | OpThenResult addr "('a, 'b) res \<Rightarrow> ('a, 'b) res" "nat option"
  | OpThenPromise addr "('a, 'b) res \<Rightarrow> addr" "nat option"
  | OpMkAll "addr list" "nat option" "'a val"
  | OpMkAny "addr list" "nat option" "'b val"
  | OpRun nat

definition run_posted :: "('a, 'b) World \<Rightarrow> nat \<Rightarrow> fault + ('a, 'b) World" where
  "run_posted w k =
     (if k < length (posted w) then
        (case posted w ! k of
           (ex, cb, val) \<Rightarrow>
             InvokeCallback (w\<lparr>posted := take k (posted w) @ drop (Suc k) (posted w)\<rparr>) cb val)
      else Inr w)"

fun apply_op :: "('a, 'b) World \<Rightarrow> ('a, 'b) Op \<Rightarrow> fault + ('a, 'b) World" where
  "apply_op w (OpNew ex) = Inr (snd (alloc w ex))"
| "apply_op w (OpResolve a v) = discard (Resolver_Resolve w a v)"
| "apply_op w (OpReject a e) = discard (Resolver_Reject w a e)"
| "apply_op w (OpCancel a) = discard (Resolver_Cancel w a)"
| "apply_op w (OpThenVoid a f ex) = Then_void w a f ex"
| "apply_op w (OpThenResult a f ex) = map_sum id snd (Then_result w a f ex)"
| "apply_op w (OpThenPromise a g ex) = map_sum id snd (Then_promise w a g ex)"
| "apply_op w (OpMkAll ins ex d) = map_sum id snd (MkAllPromise w ins ex d)"
| "apply_op w (OpMkAny ins ex d) = map_sum id snd (MkAnyPromise w ins ex d)"
| "apply_op w (OpRun k) = run_posted w k"

fun run_ops :: "('a, 'b) World \<Rightarrow> ('a, 'b) Op list \<Rightarrow> fault + ('a, 'b) World" where
  "run_ops w [] = Inr w"
| "run_ops w (op # ops) =
     (case apply_op w op of
        Inl e \<Rightarrow> Inl e
      | Inr w' \<Rightarrow> run_ops w' ops)"

text \<open>The transitions of the status that the specification allows, one at a time.\<close>

fun transition :: "PromiseStatus \<Rightarrow> PromiseStatus \<Rightarrow> bool" where
  "transition kInit t = (t = kPreResolved \<or> t = kPreRejected \<or> t = kCancelled)"
| "transition kPreResolved t = (t = kResolved \<or> t = kCancelled)"
| "transition kPreRejected t = (t = kRejected \<or> t = kCancelled)"
| "transition kResolved t = False"
| "transition kRejected t = False"
| "transition kCancelled t = False"

text \<open>
  The atomic updates of a world from which every call above is composed; \<open>fin\<close> is the
  status after a delivery.
\<close>

definition fin :: "PromiseStatus \<Rightarrow> PromiseStatus" where
  "fin st = (if st = kPreResolved then kResolved else if st = kPreRejected then kRejected else st)"

inductive prim :: "('a, 'b) World \<Rightarrow> ('a, 'b) World \<Rightarrow> bool" where
  p_settle: "lock w a = Some s \<Longrightarrow> m_status s = kInit \<Longrightarrow> st = kPreResolved \<or> st = kPreRejected \<Longrightarrow>
     prim w (put w a (s\<lparr>m_status := st, m_storage := r\<rparr>))"
| p_post: "lock w a = Some s \<Longrightarrow> m_cb s = Some cb \<Longrightarrow>
     m_status s = kPreResolved \<or> m_status s = kPreRejected \<Longrightarrow>
     prim w ((put w a (s\<lparr>m_cb := None, m_storage := None, m_status := fin (m_status s)\<rparr>))
               \<lparr>posted := posted w @ [(ex, cb, val)]\<rparr>)"
| p_inline: "lock w a = Some s \<Longrightarrow> m_cb s = Some cb \<Longrightarrow>
     m_status s = kPreResolved \<or> m_status s = kPreRejected \<Longrightarrow>
     prim w ((put w a (s\<lparr>m_cb := None, m_storage := None, m_status := fin (m_status s)\<rparr>))
               \<lparr>invoked := invoked w @ [owner cb]\<rparr>)"
| p_run: "k < length (posted w) \<Longrightarrow>
     prim w (w\<lparr>posted := take k (posted w) @ drop (Suc k) (posted w),
              invoked := invoked w @ [owner (fst (snd (posted w ! k)))]\<rparr>)"
| p_attach: "lock w a = Some s \<Longrightarrow> owner cb = a \<Longrightarrow>
     prim w (put w a (s\<lparr>m_exec := ex, m_cb := Some cb\<rparr>))"
| p_prev: "lock w a = Some s \<Longrightarrow> prim w (put w a (s\<lparr>m_prev := p\<rparr>))"
| p_next: "lock w a = Some s \<Longrightarrow> prim w (put w a (s\<lparr>m_next := n\<rparr>))"
| p_cancel: "lock w a = Some s \<Longrightarrow>
     m_status s = kInit \<or> m_status s = kPreRejected \<or> m_status s = kPreResolved \<Longrightarrow>
     prim w ((put w a (s\<lparr>m_status := kCancelled\<rparr>))\<lparr>destroyed := d\<rparr>)"
| p_clear: "lock w a = Some s \<Longrightarrow> prim w (put w a (s\<lparr>m_cb := None, m_storage := None\<rparr>))"
| p_log: "prim w (w\<lparr>user_log := l\<rparr>)"
| p_all_ctx: "prim w (w\<lparr>all_ctx := c1\<rparr>)"
| p_any_ctx: "prim w (w\<lparr>any_ctx := c2\<rparr>)"
| p_ctx_limit: "prim w (w\<lparr>ctx_limit := n\<rparr>)"
| p_alloc: "prim w (snd (alloc w ex))"

abbreviation steps :: "('a, 'b) World \<Rightarrow> ('a, 'b) World \<Rightarrow> bool" where
  "steps \<equiv> prim\<^sup>*\<^sup>*"

text \<open>
  Two facts about every world that operations build from the empty one: the continuation
  stored in a state is the closure built for that state, and a closure waiting in an executor
  belongs to a state that was delivered. \<open>quiet X\<close> says that the states of \<open>X\<close> are
  cancelled and have no closure waiting in an executor.
\<close>

definition own_ok :: "('a, 'b) World \<Rightarrow> bool" where
  "own_ok w = (\<forall>a s c. lock w a = Some s \<longrightarrow> m_cb s = Some c \<longrightarrow> owner c = a)"

definition posted_ok :: "('a, 'b) World \<Rightarrow> bool" where
  "posted_ok w = (\<forall>ex cb val. (ex, cb, val) \<in> set (posted w) \<longrightarrow>
     (\<exists>s. lock w (owner cb) = Some s \<and> (m_status s = kResolved \<or> m_status s = kRejected)))"

definition quiet :: "addr set \<Rightarrow> ('a, 'b) World \<Rightarrow> bool" where
  "quiet X w = ((\<forall>x\<in>X. \<exists>s. lock w x = Some s \<and> m_status s = kCancelled)
     \<and> (\<forall>ex cb val. (ex, cb, val) \<in> set (posted w) \<longrightarrow> owner cb \<notin> X))"

text \<open>
  The status at an address; and, for a world built by operations from the empty one, the
  status at \<open>x\<close> before \<^verbatim>\<open>Cancel\<close> on \<open>a\<close>, what \<^verbatim>\<open>Cancel\<close> returns, and the status after.
\<close>

definition status_at :: "('a, 'b) World \<Rightarrow> addr \<Rightarrow> PromiseStatus option" where
  "status_at w a = map_option m_status (lock w a)"

definition cancel_after :: "('a, 'b) Op list \<Rightarrow> addr \<Rightarrow> addr
    \<Rightarrow> fault + (PromiseStatus option \<times> bool \<times> PromiseStatus option)" where
  "cancel_after ops a x =
     (case run_ops empty_world ops of
        Inl e \<Rightarrow> Inl e
      | Inr w \<Rightarrow>
          (case Cancel w a of
             Inl e \<Rightarrow> Inl e
           | Inr (r, w1) \<Rightarrow> Inr (status_at w x, r, status_at w1 x)))"

section \<open>Settling the inputs of an aggregate\<close>













definition no_hit :: "(nat \<times> 's) list \<Rightarrow> ('s \<Rightarrow> bool) \<Rightarrow> bool" where
  "no_hit evs P = (\<forall>j s. map_of evs j = Some s \<longrightarrow> \<not> P s)"


definition hit_count :: "nat \<Rightarrow> (nat \<times> 's) list \<Rightarrow> ('s \<Rightarrow> bool) \<Rightarrow> nat" where
  "hit_count n evs P = card {i. i < n \<and> (\<exists>s. map_of evs i = Some s \<and> P s)}"

definition vec_of :: "nat \<Rightarrow> (nat \<times> 's) list \<Rightarrow> ('s \<Rightarrow> 'c option) \<Rightarrow> 'c \<Rightarrow> 'c list" where
  "vec_of n evs f d =
     map (\<lambda>i. case map_of evs i of
                 None \<Rightarrow> d
               | Some s \<Rightarrow> (case f s of None \<Rightarrow> d | Some x \<Rightarrow> x)) [0..<n]"





section \<open>Properties\<close>

lemma steps_trans: "steps w w1 \<Longrightarrow> steps w1 w2 \<Longrightarrow> steps w w2"
  by (rule rtranclp_trans)

lemma prim_steps: "prim w w1 \<Longrightarrow> steps w1 w2 \<Longrightarrow> steps w w2"
  by (rule converse_rtranclp_into_rtranclp)

lemma Cancel_steps:
  "(\<forall>b w'. Cancel w a = Inr (b, w') \<longrightarrow> steps w w')"
  "(\<forall>b w'. OnCancel w a = Inr (b, w') \<longrightarrow> steps w w')"
proof (induction w a and w a rule: Cancel_OnCancel.induct)
  case (1 w a)
  show ?case
  proof (intro allI impI)
    fix b w' assume c: "Cancel w a = Inr (b, w')"
    show "steps w w'"
    proof (cases "lock w a")
      case None
      with c show ?thesis by simp
    next
      case (Some s)
      show ?thesis
      proof (cases "m_status s = kInit \<or> m_status s = kPreRejected \<or> m_status s = kPreResolved")
        case True
        let ?w1 = "(put w a (s\<lparr>m_status := kCancelled\<rparr>))
                    \<lparr>destroyed := destroyed w @ (case m_co_handle s of None \<Rightarrow> [] | Some h \<Rightarrow> [h])\<rparr>"
        have "prim w ?w1" using Some True by (rule p_cancel)
        moreover have "OnCancel ?w1 a = Inr (b, w')" using c Some True by simp
        then have "steps ?w1 w'" using 1[OF Some True] by blast
        ultimately show ?thesis by (rule prim_steps)
      next
        case False
        with c Some show ?thesis by simp
      qed
    qed
  qed
next
  case (2 w a)
  show ?case
  proof (intro allI impI)
    fix b w' assume c: "OnCancel w a = Inr (b, w')"
    show "steps w w'"
    proof (cases "lock w a")
      case None
      with c show ?thesis by simp
    next
      case (Some s)
      let ?w1 = "put w a (s\<lparr>m_cb := None, m_storage := None\<rparr>)"
      have p: "prim w ?w1" using Some by (rule p_clear)
      show ?thesis
      proof (cases "m_next s")
        case None
        with c Some p show ?thesis by auto
      next
        case (Some n)
        with c \<open>lock w a = Some s\<close> have "Cancel ?w1 n = Inr (b, w')" by simp
        then have "steps ?w1 w'" using 2[OF \<open>lock w a = Some s\<close> Some] by blast
        with p show ?thesis by (rule prim_steps)
      qed
    qed
  qed
qed

lemma Watch_steps: "Watch w n a = Inr w1 \<Longrightarrow> steps w w1"
proof -
  assume h: "Watch w n a = Inr w1"
  then obtain st where st: "lock w n = Some st" by (auto simp: Watch_def split: option.splits)
  let ?w0 = "put w n (st\<lparr>m_prev := Some a\<rparr>)"
  from h st obtain so where so: "lock ?w0 a = Some so" and w1: "w1 = put ?w0 a (so\<lparr>m_next := Some n\<rparr>)"
    by (auto simp: Watch_def Let_def split: option.splits)
  have "prim w ?w0" using st by (rule p_prev)
  moreover have "prim ?w0 w1" unfolding w1 using so by (rule p_next)
  ultimately show ?thesis by auto
qed

lemma fin_simps [simp]: "fin kPreResolved = kResolved" "fin kPreRejected = kRejected"
  by (simp_all add: fin_def)

lemma core_steps:
  "\<forall>w'. TryInvokeCallback w a = Inr w' \<longrightarrow> steps w w'"
  "\<forall>w'. RunInExecutor w a cb val = Inr w' \<longrightarrow>
      (\<exists>s. lock w a = Some s \<and>
        (case m_exec s of
           Some ex \<Rightarrow> w' = w\<lparr>posted := posted w @ [(ex, cb, val)]\<rparr>
         | None \<Rightarrow> steps (w\<lparr>invoked := invoked w @ [owner cb]\<rparr>) w'))"
  "\<forall>w'. InvokeCallback w cb val = Inr w' \<longrightarrow> steps (w\<lparr>invoked := invoked w @ [owner cb]\<rparr>) w'"
  "\<forall>w'. InvokeFn w fn val = Inr w' \<longrightarrow> steps w w'"
  "\<forall>w'. PropagateResult w a rp = Inr w' \<longrightarrow> steps w w'"
  "\<forall>w'. PropagatePromise w a ip = Inr w' \<longrightarrow> steps w w'"
  "\<forall>w'. Attach_result w a nxt f ex = Inr w' \<longrightarrow> steps w w'"
  "\<forall>w'. owner cb = a \<longrightarrow> AddCallback w a cb ex = Inr w' \<longrightarrow> steps w w'"
  "\<forall>b w'. Resolve w a v = Inr (b, w') \<longrightarrow> steps w w'"
  "\<forall>b w'. Reject w a e = Inr (b, w') \<longrightarrow> steps w w'"
  "\<forall>b w'. Resolver_Resolve w a v = Inr (b, w') \<longrightarrow> steps w w'"
  "\<forall>b w'. Resolver_Reject w a e = Inr (b, w') \<longrightarrow> steps w w'"
proof (induction w a and w a cb val and w cb val and w fn val and w a rp and w a ip
    and w a nxt f ex and w a cb ex and w a v and w a e and w a v and w a e
    rule: TryInvokeCallback_RunInExecutor_InvokeCallback_InvokeFn_PropagateResult_PropagatePromise_Attach_result_AddCallback_Resolve_Reject_Resolver_Resolve_Resolver_Reject.induct)
  case (1 w a)
  show ?case
  proof (intro allI impI)
    fix w' assume c: "TryInvokeCallback w a = Inr w'"
    then obtain s where s: "lock w a = Some s"
      by (auto simp: TryInvokeCallback.simps split: option.splits)
    show "steps w w'"
    proof (cases "m_cb s")
      case None
      with c s show ?thesis by (simp add: TryInvokeCallback.simps)
    next
      case (Some cb)
      show ?thesis
      proof (cases "m_status s \<noteq> kPreResolved \<and> m_status s \<noteq> kPreRejected")
        case True
        with c s Some show ?thesis by (simp add: TryInvokeCallback.simps)
      next
        case False
        then have pre: "m_status s = kPreResolved \<or> m_status s = kPreRejected" by auto
        from c s Some False obtain val where val: "m_storage s = Some val"
          by (auto simp: TryInvokeCallback.simps split: option.splits)
        let ?s' = "s\<lparr>m_cb := None, m_storage := None, m_status := fin (m_status s)\<rparr>"
        have eq: "(s\<lparr>m_cb := None, m_storage := None,
                     m_status := (if m_status s = kPreResolved then kResolved
                                  else if m_status s = kPreRejected then kRejected
                                  else m_status s)\<rparr>) = ?s'"
          by (simp add: fin_def)
        have r: "RunInExecutor (put w a ?s') a cb val = Inr w'"
          using c s Some False val by (simp add: TryInvokeCallback.simps fin_def)
        from 1[OF s Some False val, unfolded eq] r
        obtain s2 where s2: "lock (put w a ?s') a = Some s2"
          and k: "case m_exec s2 of
                    Some ex \<Rightarrow> w' = (put w a ?s')\<lparr>posted := posted (put w a ?s') @ [(ex, cb, val)]\<rparr>
                  | None \<Rightarrow> steps ((put w a ?s')\<lparr>invoked := invoked (put w a ?s') @ [owner cb]\<rparr>) w'"
          by blast
        show ?thesis
        proof (cases "m_exec s2")
          case None
          have "prim w ((put w a ?s')\<lparr>invoked := invoked w @ [owner cb]\<rparr>)"
            using s Some pre by (rule p_inline)
          with k None show ?thesis by (auto intro: prim_steps)
        next
          case (Some ex)
          have "prim w ((put w a ?s')\<lparr>posted := posted w @ [(ex, cb, val)]\<rparr>)"
            using s \<open>m_cb s = Some cb\<close> pre by (rule p_post)
          with k Some show ?thesis by auto
        qed
      qed
    qed
  qed
next
  case (2 w a cb val)
  show ?case
    using 2 by (auto simp: RunInExecutor.simps split: option.splits)
next
  case (3 w cb val)
  show ?case
  proof (intro allI impI)
    fix w' assume c: "InvokeCallback w cb val = Inr w'"
    show "steps (w\<lparr>invoked := invoked w @ [owner cb]\<rparr>) w'"
    proof (cases cb)
      case (AttachVoid self f)
      with c 3(1)[OF AttachVoid] show ?thesis
        by (auto simp: InvokeCallback.simps split: option.splits)
    next
      case (AttachResult self f)
      with c 3(2)[OF AttachResult] show ?thesis
        by (auto simp: InvokeCallback.simps split: option.splits sum.splits)
    next
      case (AttachPromise self g)
      with c 3(3)[OF AttachPromise] show ?thesis
        by (auto simp: InvokeCallback.simps split: option.splits sum.splits)
    qed
  qed
next
  case (4 w fn val)
  show ?case
  proof (intro allI impI)
    fix w' assume c: "InvokeFn w fn val = Inr w'"
    show "steps w w'"
    proof (cases fn)
      case (UserFn n)
      with c show ?thesis by (auto simp: InvokeFn.simps intro: p_log)
    next
      case (AllFn idx ctx resolver)
      show ?thesis
      proof (cases "IsError val")
        case True
        with c AllFn obtain e b where e: "Error val = Some e"
          and r: "Resolver_Reject w resolver e = Inr (b, w')"
          by (auto simp: InvokeFn.simps discard_def split: option.splits sum.splits)
        from 4(1)[OF AllFn True e] r show ?thesis by blast
      next
        case False
        with c AllFn obtain c0 v where c0: "all_ctx w ctx = Some c0" and v: "Value val = Some v"
          by (auto simp: InvokeFn.simps split: option.splits)
        let ?w1 = "w\<lparr>all_ctx := (all_ctx w)(ctx \<mapsto>
                     c0\<lparr>results := (results c0)[idx := v],
                        success_counter := decr (success_counter c0)\<rparr>)\<rparr>"
        have p: "prim w ?w1" by (rule p_all_ctx)
        show ?thesis
        proof (cases "0 < decr (success_counter c0)")
          case True
          with c AllFn False c0 v have "w' = ?w1" by (simp add: InvokeFn.simps)
          with p show ?thesis by auto
        next
          case nz: False
          with c AllFn False c0 v obtain b where
            "Resolver_Resolve ?w1 resolver (Vec ((results c0)[idx := v])) = Inr (b, w')"
            by (auto simp: InvokeFn.simps discard_def split: sum.splits)
          with 4(2)[OF AllFn False c0 v nz] have "steps ?w1 w'" by blast
          with p show ?thesis by (rule prim_steps)
        qed
      qed
    next
      case (AnyFn idx ctx resolver)
      show ?thesis
      proof (cases "IsError val")
        case True
        with c AnyFn obtain c0 e where c0: "any_ctx w ctx = Some c0" and e: "Error val = Some e"
          by (auto simp: InvokeFn.simps split: option.splits)
        let ?w1 = "w\<lparr>any_ctx := (any_ctx w)(ctx \<mapsto>
                     c0\<lparr>errors := (errors c0)[idx := e],
                        failure_counter := decr (failure_counter c0)\<rparr>)\<rparr>"
        have p: "prim w ?w1" by (rule p_any_ctx)
        show ?thesis
        proof (cases "decr (failure_counter c0) = 0")
          case z: True
          with c AnyFn True c0 e obtain b where
            "Resolver_Reject ?w1 resolver (Vec ((errors c0)[idx := e])) = Inr (b, w')"
            by (auto simp: InvokeFn.simps discard_def split: sum.splits)
          with 4(3)[OF AnyFn True c0 e z] have "steps ?w1 w'" by blast
          with p show ?thesis by (rule prim_steps)
        next
          case False
          with c AnyFn True c0 e have "w' = ?w1" by (simp add: InvokeFn.simps)
          with p show ?thesis by auto
        qed
      next
        case False
        with c AnyFn obtain v b where v: "Value val = Some v"
          and r: "Resolver_Resolve w resolver v = Inr (b, w')"
          by (auto simp: InvokeFn.simps discard_def split: option.splits sum.splits)
        from 4(4)[OF AnyFn False v] r show ?thesis by blast
      qed
    qed
  qed
next
  case (5 w a rp)
  then show ?case
    by (auto simp: PropagateResult.simps discard_def split: option.splits sum.splits)
next
  case (6 w a ip)
  then show ?case
    by (auto simp: PropagatePromise.simps split: option.splits)
next
  case (7 w a nxt f ex)
  show ?case
  proof (intro allI impI)
    fix w' assume c: "Attach_result w a nxt f ex = Inr w'"
    then obtain w1 where w1: "Watch w nxt a = Inr w1"
      and a: "AddCallback w1 a (AttachResult a f) ex = Inr w'"
      by (auto simp: Attach_result.simps split: sum.splits)
    have "steps w w1" using w1 by (rule Watch_steps)
    moreover have "steps w1 w'" using 7[OF w1] a by simp
    ultimately show "steps w w'" by (rule steps_trans)
  qed
next
  case (8 w a cb ex)
  show ?case
  proof (intro allI impI)
    fix w' assume o: "owner cb = a" and c: "AddCallback w a cb ex = Inr w'"
    then obtain s where s: "lock w a = Some s"
      by (auto simp: AddCallback.simps split: option.splits)
    have "prim w (put w a (s\<lparr>m_exec := ex, m_cb := Some cb\<rparr>))" using s o by (rule p_attach)
    moreover have "steps (put w a (s\<lparr>m_exec := ex, m_cb := Some cb\<rparr>)) w'"
      using 8[OF s] c s by (simp add: AddCallback.simps)
    ultimately show "steps w w'" by (rule prim_steps)
  qed
next
  case (9 w a v)
  show ?case
  proof (intro allI impI)
    fix b w' assume c: "Resolve w a v = Inr (b, w')"
    then obtain s where s: "lock w a = Some s"
      by (auto simp: Resolve.simps split: option.splits)
    show "steps w w'"
    proof (cases "m_status s = kInit")
      case True
      have "prim w (put w a (s\<lparr>m_status := kPreResolved, m_storage := Some (kValue v)\<rparr>))"
        using s True by (intro p_settle) auto
      moreover have "steps (put w a (s\<lparr>m_status := kPreResolved, m_storage := Some (kValue v)\<rparr>)) w'"
        using 9[OF s] c s True by (auto simp: Resolve.simps split: sum.splits)
      ultimately show ?thesis by (rule prim_steps)
    next
      case False
      with c s show ?thesis by (simp add: Resolve.simps)
    qed
  qed
next
  case (10 w a e)
  show ?case
  proof (intro allI impI)
    fix b w' assume c: "Reject w a e = Inr (b, w')"
    then obtain s where s: "lock w a = Some s"
      by (auto simp: Reject.simps split: option.splits)
    show "steps w w'"
    proof (cases "m_status s = kInit")
      case True
      have "prim w (put w a (s\<lparr>m_status := kPreRejected, m_storage := Some (kError e)\<rparr>))"
        using s True by (intro p_settle) auto
      moreover have "steps (put w a (s\<lparr>m_status := kPreRejected, m_storage := Some (kError e)\<rparr>)) w'"
        using 10[OF s] c s True by (auto simp: Reject.simps split: sum.splits)
      ultimately show ?thesis by (rule prim_steps)
    next
      case False
      with c s show ?thesis by (simp add: Reject.simps)
    qed
  qed
next
  case (11 w a v)
  then show ?case by (auto simp: Resolver_Resolve.simps split: option.splits)
next
  case (12 w a e)
  then show ?case by (auto simp: Resolver_Reject.simps split: option.splits)
qed

lemmas TryInvokeCallback_steps = core_steps(1)[rule_format]

lemmas InvokeCallback_steps = core_steps(3)[rule_format]

lemmas Attach_result_steps = core_steps(7)[rule_format]

lemmas AddCallback_steps = core_steps(8)[rule_format]

lemmas Resolve_steps = core_steps(9)[rule_format]

lemmas Reject_steps = core_steps(10)[rule_format]

lemmas Resolver_Resolve_steps = core_steps(11)[rule_format]

lemmas Resolver_Reject_steps = core_steps(12)[rule_format]

lemmas Cancel_steps' = Cancel_steps(1)[rule_format]

lemmas OnCancel_steps = Cancel_steps(2)[rule_format]

lemma discard_Inr: "discard x = Inr w' \<Longrightarrow> \<exists>b. x = Inr (b, w')"
  by (auto simp: discard_def split: sum.splits)

lemma Then_void_steps: "Then_void w a f ex = Inr w' \<Longrightarrow> steps w w'"
  using AddCallback_steps[of "AttachVoid a f" a w ex]
  by (simp add: Then_void_def Attach_void_def)

lemma alloc_steps: "alloc w ex = (n, w1) \<Longrightarrow> steps w w1"
  using p_alloc[of w ex] by auto

lemma Then_result_steps: "Then_result w a f ex = Inr (n, w') \<Longrightarrow> steps w w'"
proof -
  assume h: "Then_result w a f ex = Inr (n, w')"
  then obtain s where s: "lock w a = Some s" by (auto simp: Then_result_def split: option.splits)
  obtain m w1 where al: "alloc w (PreferExecutor s ex) = (m, w1)" by fastforce
  with h s have "Attach_result w1 a m f ex = Inr w'"
    by (auto simp: Then_result_def split: sum.splits)
  then have "steps w1 w'" by (rule Attach_result_steps)
  with alloc_steps[OF al] show ?thesis by (rule steps_trans)
qed

lemma Then_promise_steps: "Then_promise w a g ex = Inr (n, w') \<Longrightarrow> steps w w'"
proof -
  assume h: "Then_promise w a g ex = Inr (n, w')"
  then obtain s where s: "lock w a = Some s" by (auto simp: Then_promise_def split: option.splits)
  obtain m w1 where al: "alloc w (PreferExecutor s ex) = (m, w1)" by fastforce
  with h s obtain w2 where w2: "Watch w1 m a = Inr w2"
    and ac: "AddCallback w2 a (AttachPromise a g) ex = Inr w'"
    by (auto simp: Then_promise_def Attach_promise_def split: sum.splits)
  have "steps w2 w'" using AddCallback_steps[of "AttachPromise a g" a w2 ex] ac by simp
  with Watch_steps[OF w2] have "steps w1 w'" by (rule steps_trans)
  with alloc_steps[OF al] show ?thesis by (rule steps_trans)
qed

lemma MkAll_loop_steps: "MkAll_loop w ins idx ctx r ex = Inr w' \<Longrightarrow> steps w w'"
proof (induction ins arbitrary: w idx)
  case Nil
  then show ?case by simp
next
  case (Cons a ins)
  then obtain w1 where a: "Then_void w a (AllFn idx ctx r) ex = Inr w1"
    and l: "MkAll_loop w1 ins (Suc idx) ctx r ex = Inr w'"
    by (auto split: sum.splits)
  from Then_void_steps[OF a] Cons.IH[OF l] show ?case by (rule steps_trans)
qed

lemma MkAny_loop_steps: "MkAny_loop w ins idx ctx r ex = Inr w' \<Longrightarrow> steps w w'"
proof (induction ins arbitrary: w idx)
  case Nil
  then show ?case by simp
next
  case (Cons a ins)
  then obtain w1 where a: "Then_void w a (AnyFn idx ctx r) ex = Inr w1"
    and l: "MkAny_loop w1 ins (Suc idx) ctx r ex = Inr w'"
    by (auto split: sum.splits)
  from Then_void_steps[OF a] Cons.IH[OF l] show ?case by (rule steps_trans)
qed

lemma MkAllPromise_steps: "MkAllPromise w ins ex d = Inr (n, w') \<Longrightarrow> steps w w'"
proof -
  assume h: "MkAllPromise w ins ex d = Inr (n, w')"
  obtain m w1 where al: "alloc w None = (m, w1)" by fastforce
  have s1: "steps w w1" using al by (rule alloc_steps)
  show ?thesis
  proof (cases "ins = []")
    case True
    with h al obtain b where "Resolver_Resolve w1 m (Vec []) = Inr (b, w')"
      by (auto simp: MkAllPromise_def split: sum.splits)
    then have "steps w1 w'" by (rule Resolver_Resolve_steps)
    with s1 show ?thesis by (rule steps_trans)
  next
    case False
    let ?w2 = "w1\<lparr>all_ctx := (all_ctx w1)(ctx_limit w1 \<mapsto>
                   \<lparr>success_counter = length ins, results = replicate (length ins) d\<rparr>)\<rparr>"
    let ?w3 = "?w2\<lparr>ctx_limit := Suc (ctx_limit w1)\<rparr>"
    have "prim w1 ?w2" by (rule p_all_ctx)
    moreover have "prim ?w2 ?w3" by (rule p_ctx_limit)
    ultimately have s2: "steps w1 ?w3" by auto
    from h al False have "MkAll_loop ?w3 ins 0 (ctx_limit w1) m ex = Inr w'"
      by (auto simp: MkAllPromise_def split: sum.splits)
    then have "steps ?w3 w'" by (rule MkAll_loop_steps)
    with s2 have "steps w1 w'" by (rule steps_trans)
    with s1 show ?thesis by (rule steps_trans)
  qed
qed

lemma MkAnyPromise_steps: "MkAnyPromise w ins ex d = Inr (n, w') \<Longrightarrow> steps w w'"
proof -
  assume h: "MkAnyPromise w ins ex d = Inr (n, w')"
  obtain m w1 where al: "alloc w None = (m, w1)" by fastforce
  have s1: "steps w w1" using al by (rule alloc_steps)
  from h al have ne: "ins \<noteq> []" by (auto simp: MkAnyPromise_def split: if_splits)
  let ?w2 = "w1\<lparr>any_ctx := (any_ctx w1)(ctx_limit w1 \<mapsto>
                 \<lparr>failure_counter = length ins, errors = replicate (length ins) d\<rparr>)\<rparr>"
  let ?w3 = "?w2\<lparr>ctx_limit := Suc (ctx_limit w1)\<rparr>"
  have "prim w1 ?w2" by (rule p_any_ctx)
  moreover have "prim ?w2 ?w3" by (rule p_ctx_limit)
  ultimately have s2: "steps w1 ?w3" by auto
  from h al ne have "MkAny_loop ?w3 ins 0 (ctx_limit w1) m ex = Inr w'"
    by (auto simp: MkAnyPromise_def split: sum.splits)
  then have "steps ?w3 w'" by (rule MkAny_loop_steps)
  with s2 have "steps w1 w'" by (rule steps_trans)
  with s1 show ?thesis by (rule steps_trans)
qed

lemma run_posted_steps: "run_posted w k = Inr w' \<Longrightarrow> steps w w'"
proof (cases "k < length (posted w)")
  case True
  assume h: "run_posted w k = Inr w'"
  obtain ex cb val where pk: "posted w ! k = (ex, cb, val)" by (cases "posted w ! k") auto
  let ?w1 = "w\<lparr>posted := take k (posted w) @ drop (Suc k) (posted w)\<rparr>"
  from h True pk have "InvokeCallback ?w1 cb val = Inr w'" by (simp add: run_posted_def)
  then have "steps (?w1\<lparr>invoked := invoked ?w1 @ [owner cb]\<rparr>) w'"
    by (rule InvokeCallback_steps)
  then have st: "steps (w\<lparr>posted := take k (posted w) @ drop (Suc k) (posted w),
              invoked := invoked w @ [owner (fst (snd (posted w ! k)))]\<rparr>) w'"
    using pk by simp
  have "prim w (w\<lparr>posted := take k (posted w) @ drop (Suc k) (posted w),
              invoked := invoked w @ [owner (fst (snd (posted w ! k)))]\<rparr>)"
    using True by (rule p_run)
  then show ?thesis using st by (rule prim_steps)
next
  case False
  assume "run_posted w k = Inr w'"
  with False show ?thesis by (simp add: run_posted_def)
qed

lemma apply_op_steps: "apply_op w op = Inr w' \<Longrightarrow> steps w w'"
proof (cases op)
  case (OpNew ex)
  assume "apply_op w op = Inr w'"
  with OpNew have "w' = snd (alloc w ex)" by simp
  then show ?thesis using p_alloc[of w ex] by simp
next
  case (OpResolve a v)
  assume "apply_op w op = Inr w'"
  with OpResolve obtain b where "Resolver_Resolve w a v = Inr (b, w')"
    using discard_Inr by fastforce
  then show ?thesis by (rule Resolver_Resolve_steps)
next
  case (OpReject a e)
  assume "apply_op w op = Inr w'"
  with OpReject obtain b where "Resolver_Reject w a e = Inr (b, w')"
    using discard_Inr by fastforce
  then show ?thesis by (rule Resolver_Reject_steps)
next
  case (OpCancel a)
  assume "apply_op w op = Inr w'"
  with OpCancel obtain b where c: "Resolver_Cancel w a = Inr (b, w')"
    using discard_Inr by fastforce
  show ?thesis
  proof (cases "lock w a")
    case None
    with c show ?thesis by (simp add: Resolver_Cancel_def)
  next
    case (Some s)
    with c have "Cancel w a = Inr (b, w')" by (simp add: Resolver_Cancel_def)
    then show ?thesis by (rule Cancel_steps')
  qed
next
  case (OpThenVoid a f ex)
  assume "apply_op w op = Inr w'"
  with OpThenVoid have "Then_void w a f ex = Inr w'" by simp
  then show ?thesis by (rule Then_void_steps)
next
  case (OpThenResult a f ex)
  assume "apply_op w op = Inr w'"
  with OpThenResult obtain n where "Then_result w a f ex = Inr (n, w')"
    by (cases "Then_result w a f ex") auto
  then show ?thesis by (rule Then_result_steps)
next
  case (OpThenPromise a g ex)
  assume "apply_op w op = Inr w'"
  with OpThenPromise obtain n where "Then_promise w a g ex = Inr (n, w')"
    by (cases "Then_promise w a g ex") auto
  then show ?thesis by (rule Then_promise_steps)
next
  case (OpMkAll ins ex d)
  assume "apply_op w op = Inr w'"
  with OpMkAll obtain n where "MkAllPromise w ins ex d = Inr (n, w')"
    by (cases "MkAllPromise w ins ex d") auto
  then show ?thesis by (rule MkAllPromise_steps)
next
  case (OpMkAny ins ex d)
  assume "apply_op w op = Inr w'"
  with OpMkAny obtain n where "MkAnyPromise w ins ex d = Inr (n, w')"
    by (cases "MkAnyPromise w ins ex d") auto
  then show ?thesis by (rule MkAnyPromise_steps)
next
  case (OpRun k)
  assume "apply_op w op = Inr w'"
  with OpRun have "run_posted w k = Inr w'" by simp
  then show ?thesis by (rule run_posted_steps)
qed

lemma run_ops_steps: "run_ops w ops = Inr w' \<Longrightarrow> steps w w'"
proof (induction ops arbitrary: w)
  case Nil
  then show ?case by simp
next
  case (Cons op ops)
  then obtain w1 where a: "apply_op w op = Inr w1" and r: "run_ops w1 ops = Inr w'"
    by (auto split: sum.splits)
  from apply_op_steps[OF a] Cons.IH[OF r] show ?case by (rule steps_trans)
qed

text \<open>
  Claim C1 (the code departs from it). A continuation that returns a \<^verbatim>\<open>Result\<close> holding
  a value resolves the next promise with it. For a \<^verbatim>\<open>Result\<close> holding an error,
  \<^verbatim>\<open>PropagateResult\<close> tests the pointer, not the \<^verbatim>\<open>Result\<close>, and takes the value of a
  \<^verbatim>\<open>Result\<close> that has none: the next promise is not rejected. The last part runs the
  chain of two promises built by \<^verbatim>\<open>Then\<close> with a continuation returning an error.
\<close>

theorem PropagateResult_error_never_rejects:
  "PropagateResult w b (Some (kError e)) = Inl NullDeref
   \<and> PropagateResult w b (Some (kValue v)) = discard (Resolve w b v)
   \<and> (case Then_result (snd (alloc (empty_world :: (nat, nat) World) None)) 0
              (\<lambda>r. kError (Atom 7)) None of
         Inl e \<Rightarrow> False
       | Inr (b, w1) \<Rightarrow> b = 1 \<and> Resolve w1 0 (Atom 1) = Inl NullDeref
            \<and> map_option m_status (lock w1 1) = Some kInit)"
  by (simp add: deliver_simps closure_simps Then_result_def alloc_def empty_world_def
      new_state_def PreferExecutor_def GetExecutor_def lock_def put_def Watch_def Let_def
      next_propagator_def Value_def)

lemma Resolve_not_Init:
  "lock w a = Some s \<Longrightarrow> m_status s \<noteq> kInit \<Longrightarrow> Resolve w a v = Inr (False, w)"
  by (simp add: Resolve.simps)

lemma Reject_not_Init:
  "lock w a = Some s \<Longrightarrow> m_status s \<noteq> kInit \<Longrightarrow> Reject w a e = Inr (False, w)"
  by (simp add: Reject.simps)

lemma Resolve_returns_True:
  "Resolve w a v = Inr (b, w') \<Longrightarrow> lock w a = Some s \<Longrightarrow> m_status s = kInit \<Longrightarrow> b"
  by (auto simp: Resolve.simps split: sum.splits)

lemma Reject_returns_True:
  "Reject w a e = Inr (b, w') \<Longrightarrow> lock w a = Some s \<Longrightarrow> m_status s = kInit \<Longrightarrow> b"
  by (auto simp: Reject.simps split: sum.splits)

lemma Resolve_Init_no_inline:
  assumes "lock w a = Some s" "m_status s = kInit" "m_cb s = None \<or> m_exec s \<noteq> None"
  shows "\<exists>w'. Resolve w a v = Inr (True, w')"
  using assms lock_lt[OF assms(1)] by (auto simp: deliver_simps split: option.splits)

lemma Reject_Init_no_inline:
  assumes "lock w a = Some s" "m_status s = kInit" "m_cb s = None \<or> m_exec s \<noteq> None"
  shows "\<exists>w'. Reject w a e = Inr (True, w')"
  using assms lock_lt[OF assms(1)] by (auto simp: deliver_simps split: option.splits)

text \<open>
  Claim C2. On a live state that is not \<^verbatim>\<open>kInit\<close>, \<^verbatim>\<open>Resolve\<close> and \<^verbatim>\<open>Reject\<close>, called
  on the state or through a \<^verbatim>\<open>Resolver\<close>, return false and leave the world as it was.
  On a state that is \<^verbatim>\<open>kInit\<close> the boolean they return is true; they do return when no
  continuation runs inline (none is attached, or it is posted to an executor), and
  otherwise they return once the continuation run inline has returned.
\<close>

theorem settle_returns_true_iff_Init:
  assumes "lock w a = Some s"
  shows "(m_status s \<noteq> kInit \<longrightarrow>
            Resolve w a v = Inr (False, w) \<and> Reject w a e = Inr (False, w)
          \<and> Resolver_Resolve w a v = Inr (False, w) \<and> Resolver_Reject w a e = Inr (False, w))
       \<and> (m_status s = kInit \<longrightarrow>
            (\<forall>b w'. Resolve w a v = Inr (b, w') \<longrightarrow> b)
          \<and> (\<forall>b w'. Reject w a e = Inr (b, w') \<longrightarrow> b)
          \<and> (\<forall>b w'. Resolver_Resolve w a v = Inr (b, w') \<longrightarrow> b)
          \<and> (\<forall>b w'. Resolver_Reject w a e = Inr (b, w') \<longrightarrow> b))
       \<and> (m_status s = kInit \<and> (m_cb s = None \<or> m_exec s \<noteq> None) \<longrightarrow>
            (\<exists>w'. Resolve w a v = Inr (True, w')) \<and> (\<exists>w'. Reject w a e = Inr (True, w'))
          \<and> (\<exists>w'. Resolver_Resolve w a v = Inr (True, w'))
          \<and> (\<exists>w'. Resolver_Reject w a e = Inr (True, w')))
       \<and> (\<forall>cb. m_status s = kInit \<and> m_cb s = Some cb \<and> m_exec s = None \<longrightarrow>
            Resolve w a v =
              (case InvokeCallback
                      (put w a (s\<lparr>m_cb := None, m_storage := None, m_status := kResolved\<rparr>))
                      cb (kValue v) of
                 Inl x \<Rightarrow> Inl x | Inr w' \<Rightarrow> Inr (True, w'))
          \<and> Reject w a e =
              (case InvokeCallback
                      (put w a (s\<lparr>m_cb := None, m_storage := None, m_status := kRejected\<rparr>))
                      cb (kError e) of
                 Inl x \<Rightarrow> Inl x | Inr w' \<Rightarrow> Inr (True, w')))"
proof (intro conjI impI allI)
  assume n: "m_status s \<noteq> kInit"
  show "Resolve w a v = Inr (False, w)" using assms n by (rule Resolve_not_Init)
  show "Reject w a e = Inr (False, w)" using assms n by (rule Reject_not_Init)
  show "Resolver_Resolve w a v = Inr (False, w)" using assms n by (simp add: deliver_simps)
  show "Resolver_Reject w a e = Inr (False, w)" using assms n by (simp add: deliver_simps)
next
  assume i: "m_status s = kInit"
  have rr: "Resolver_Resolve w a v = Resolve w a v" "Resolver_Reject w a e = Reject w a e"
    using assms by (simp_all add: Resolver_Resolve.simps Resolver_Reject.simps)
  show "\<And>b w'. Resolve w a v = Inr (b, w') \<Longrightarrow> b"
    using Resolve_returns_True[OF _ assms i] by blast
  show "\<And>b w'. Reject w a e = Inr (b, w') \<Longrightarrow> b"
    using Reject_returns_True[OF _ assms i] by blast
  show "\<And>b w'. Resolver_Resolve w a v = Inr (b, w') \<Longrightarrow> b"
    unfolding rr using Resolve_returns_True[OF _ assms i] by blast
  show "\<And>b w'. Resolver_Reject w a e = Inr (b, w') \<Longrightarrow> b"
    unfolding rr using Reject_returns_True[OF _ assms i] by blast
next
  assume h: "m_status s = kInit \<and> (m_cb s = None \<or> m_exec s \<noteq> None)"
  have rr: "Resolver_Resolve w a v = Resolve w a v" "Resolver_Reject w a e = Reject w a e"
    using assms by (simp_all add: Resolver_Resolve.simps Resolver_Reject.simps)
  show "\<exists>w'. Resolve w a v = Inr (True, w')" using Resolve_Init_no_inline[OF assms] h by blast
  show "\<exists>w'. Reject w a e = Inr (True, w')" using Reject_Init_no_inline[OF assms] h by blast
  show "\<exists>w'. Resolver_Resolve w a v = Inr (True, w')"
    unfolding rr using Resolve_Init_no_inline[OF assms] h by blast
  show "\<exists>w'. Resolver_Reject w a e = Inr (True, w')"
    unfolding rr using Reject_Init_no_inline[OF assms] h by blast
next
  fix cb
  assume h: "m_status s = kInit \<and> m_cb s = Some cb \<and> m_exec s = None"
  show "Resolve w a v =
          (case InvokeCallback
                  (put w a (s\<lparr>m_cb := None, m_storage := None, m_status := kResolved\<rparr>))
                  cb (kValue v) of
             Inl x \<Rightarrow> Inl x | Inr w' \<Rightarrow> Inr (True, w'))"
    using assms h lock_lt[OF assms] by (simp add: deliver_simps)
  show "Reject w a e =
          (case InvokeCallback
                  (put w a (s\<lparr>m_cb := None, m_storage := None, m_status := kRejected\<rparr>))
                  cb (kError e) of
             Inl x \<Rightarrow> Inl x | Inr w' \<Rightarrow> Inr (True, w'))"
    using assms h lock_lt[OF assms] by (simp add: deliver_simps)
qed

theorem settle_returns_true_iff_Init_witness:
  "lock (snd (alloc (empty_world :: (nat, nat) World) None)) 0 = Some (new_state None)
   \<and> (\<exists>w'. Resolve (snd (alloc (empty_world :: (nat, nat) World) None)) 0 (Atom 1) = Inr (True, w'))
   \<and> (\<exists>w'. Resolver_Reject (snd (alloc (empty_world :: (nat, nat) World) None)) 0 (Atom 2) = Inr (True, w'))
   \<and> Resolve (put (snd (alloc (empty_world :: (nat, nat) World) None)) 0
         ((new_state None)\<lparr>m_status := kPreRejected, m_storage := Some (kError (Atom 2))\<rparr>)) 0 (Atom 1)
       = Inr (False, put (snd (alloc (empty_world :: (nat, nat) World) None)) 0
         ((new_state None)\<lparr>m_status := kPreRejected, m_storage := Some (kError (Atom 2))\<rparr>))"
proof -
  let ?w = "snd (alloc (empty_world :: (nat, nat) World) None)"
  let ?s2 = "(new_state None)\<lparr>m_status := kPreRejected, m_storage := Some (kError (Atom 2))\<rparr>
                :: (nat, nat) State"
  have l1: "lock ?w 0 = Some (new_state None)"
    by (simp add: alloc_def empty_world_def lock_def)
  have l2: "lock (put ?w 0 ?s2) 0 = Some ?s2"
    by (simp add: alloc_def empty_world_def)
  show ?thesis
    using l1 settle_returns_true_iff_Init[OF l1, of "Atom 1" "Atom 2"]
      settle_returns_true_iff_Init[OF l2, of "Atom 1" "Atom 2"]
    by (simp add: new_state_def)
qed



text \<open>
  Claim C9. \<^verbatim>\<open>Result<void, E>::IsValue\<close> is false for every result, so
  \<^verbatim>\<open>return_value(Result<void, E>&&)\<close> takes the branch that resolves for every result:
  returning a result that holds an error does what returning the empty result does, and a
  fresh promise ends resolved, while \<^verbatim>\<open>return_value(E&&)\<close> rejects it.
\<close>

theorem return_value_void_always_resolves:
  "IsValue_void r = False
   \<and> return_value_void w r = discard (Resolver_Resolve_void w)
   \<and> return_value_void w (ResultVoid_of_error e) = return_value_void w ResultVoid_default
   \<and> IsError_void (ResultVoid_of_error e)
   \<and> map_sum id (\<lambda>w'. map_option (\<lambda>s. (m_status s, m_storage s)) (v_state w'))
        (return_value_void (new_void_world None) (ResultVoid_of_error e))
      = Inr (Some (kPreResolved, Some ResultVoid_default))
   \<and> map_sum id (\<lambda>w'. map_option (\<lambda>s. (m_status s, m_storage s)) (v_state w'))
        (return_value_error_void (new_void_world None) e)
      = Inr (Some (kPreRejected, Some (ResultVoid_of_error e)))"
  by (simp add: IsValue_void_def return_value_void_def IsError_void_def ResultVoid_of_error_def
      new_void_world_def new_state_def Resolver_Resolve_void_def Resolve_void_def
      TryInvokeCallback_void_def discard_def return_value_error_void_def Resolver_Reject_void_def
      Reject_void_def)


lemma lock_alloc:
  "lock (snd (alloc w ex)) a = (if a = limit w then Some (new_state ex) else lock w a)"
  by (auto simp: alloc_def lock_def)

lemma prim_mono:
  assumes "prim w w'" and "lock w a = Some s"
  shows "\<exists>s'. lock w' a = Some s' \<and> (m_status s' = m_status s \<or> transition (m_status s) (m_status s'))"
  using assms
proof (cases rule: prim.cases)
  case (p_alloc ex)
  with assms(2) lock_lt[OF assms(2)] show ?thesis by (simp add: lock_alloc)
qed (use lock_lt[OF assms(2)] lock_lt in \<open>auto simp: fin_def\<close>)

lemma steps_mono:
  assumes "steps w w'" and "lock w a = Some s"
  shows "\<exists>s'. lock w' a = Some s' \<and> transition\<^sup>*\<^sup>* (m_status s) (m_status s')"
  using assms
proof (induction rule: rtranclp_induct)
  case base
  then show ?case by auto
next
  case (step y z)
  then obtain s1 where s1: "lock y a = Some s1" and r: "transition\<^sup>*\<^sup>* (m_status s) (m_status s1)"
    by blast
  from prim_mono[OF step.hyps(2) s1] obtain s2 where s2: "lock z a = Some s2"
    and k: "m_status s2 = m_status s1 \<or> transition (m_status s1) (m_status s2)" by blast
  from r k have "transition\<^sup>*\<^sup>* (m_status s) (m_status s2)"
    by (auto intro: rtranclp.rtrancl_into_rtrancl)
  with s2 show ?case by blast
qed

lemma reach_cases:
  assumes "transition\<^sup>*\<^sup>* s t"
  shows "t = s \<or> s = kInit
      \<or> (s = kPreResolved \<and> (t = kResolved \<or> t = kCancelled))
      \<or> (s = kPreRejected \<and> (t = kRejected \<or> t = kCancelled))"
  using assms
proof (induction rule: rtranclp_induct)
  case base
  then show ?case by simp
next
  case (step y z)
  then show ?case by (cases y; cases s; auto)
qed

text \<open>
  Claim C3. Along every sequence of operations, the status of a state that exists at the
  start is reached from its first status by transitions of the specification only:
  \<^verbatim>\<open>kInit\<close> to \<^verbatim>\<open>kPreResolved\<close> to \<^verbatim>\<open>kResolved\<close>, \<^verbatim>\<open>kInit\<close> to \<^verbatim>\<open>kPreRejected\<close> to
  \<^verbatim>\<open>kRejected\<close>, and to \<^verbatim>\<open>kCancelled\<close> from \<^verbatim>\<open>kInit\<close>, \<^verbatim>\<open>kPreResolved\<close> or \<^verbatim>\<open>kPreRejected\<close>.
  Every call is a sequence of atomic updates, each of which changes the status of a state by
  at most one such transition.
\<close>

theorem status_only_moves_along_paths:
  assumes "run_ops w ops = Inr w'" and "lock w a = Some s"
  shows "\<exists>s'. lock w' a = Some s' \<and> transition\<^sup>*\<^sup>* (m_status s) (m_status s')
     \<and> (m_status s' = m_status s \<or> m_status s = kInit
        \<or> (m_status s = kPreResolved \<and> (m_status s' = kResolved \<or> m_status s' = kCancelled))
        \<or> (m_status s = kPreRejected \<and> (m_status s' = kRejected \<or> m_status s' = kCancelled)))"
proof -
  from run_ops_steps[OF assms(1)] have "steps w w'" .
  from steps_mono[OF this assms(2)] obtain s' where s': "lock w' a = Some s'"
    and r: "transition\<^sup>*\<^sup>* (m_status s) (m_status s')" by blast
  from reach_cases[OF r] s' r show ?thesis by blast
qed

theorem status_only_moves_along_paths_witness:
  "\<exists>w' s'. run_ops (snd (alloc (empty_world :: (nat, nat) World) None))
        [OpThenVoid 0 (UserFn 1) None, OpResolve 0 (Atom 5), OpCancel 0] = Inr w'
     \<and> lock w' 0 = Some s' \<and> m_status s' = kResolved \<and> transition\<^sup>*\<^sup>* kInit (m_status s')"
proof -
  let ?w = "snd (alloc (empty_world :: (nat, nat) World) None)"
  let ?ops = "[OpThenVoid 0 (UserFn 1) None, OpResolve 0 (Atom 5), OpCancel 0] :: (nat, nat) Op list"
  have "\<exists>w'. run_ops ?w ?ops = Inr w' \<and> map_option m_status (lock w' 0) = Some kResolved"
    by (simp add: deliver_simps closure_simps Then_void_def Attach_void_def alloc_def
        empty_world_def new_state_def lock_def put_def discard_def Resolver_Cancel_def)
  then obtain w' where r: "run_ops ?w ?ops = Inr w'"
    and st: "map_option m_status (lock w' 0) = Some kResolved" by blast
  have l: "lock ?w 0 = Some (new_state None)"
    by (simp add: alloc_def empty_world_def lock_def)
  from status_only_moves_along_paths[OF r l] obtain s' where
    "lock w' 0 = Some s'" "transition\<^sup>*\<^sup>* (m_status (new_state None :: (nat, nat) State)) (m_status s')"
    by blast
  with st r show ?thesis by (auto simp: new_state_def)
qed

lemma set_remove_nth: "x \<in> set (take k xs @ drop (Suc k) xs) \<Longrightarrow> x \<in> set xs"
  by (auto dest: in_set_takeD in_set_dropD)

lemma prim_own_ok:
  assumes "prim w w'" and "own_ok w"
  shows "own_ok w'"
  using assms
proof (cases rule: prim.cases)
  case (p_alloc ex)
  with assms(2) show ?thesis
    by (auto simp: own_ok_def lock_alloc new_state_def split: if_splits)
qed (auto simp: own_ok_def split: if_splits)

lemma prim_posted_ok:
  assumes "prim w w'" and "own_ok w" and "posted_ok w"
  shows "posted_ok w'"
  using assms
proof (cases rule: prim.cases)
  case (p_alloc ex)
  show ?thesis
    unfolding posted_ok_def
  proof (intro allI impI)
    fix e cb val assume "(e, cb, val) \<in> set (posted w')"
    with p_alloc have "(e, cb, val) \<in> set (posted w)" by (simp add: alloc_def)
    with assms(3) obtain s where s: "lock w (owner cb) = Some s"
      and t: "m_status s = kResolved \<or> m_status s = kRejected"
      unfolding posted_ok_def by blast
    from lock_lt[OF s] s have "lock w' (owner cb) = Some s"
      unfolding p_alloc by (simp add: lock_alloc)
    with t show "\<exists>s. lock w' (owner cb) = Some s \<and> (m_status s = kResolved \<or> m_status s = kRejected)"
      by blast
  qed
next
  case (p_run k)
  with assms(3) show ?thesis
    by (auto simp: posted_ok_def dest!: in_set_takeD in_set_dropD)
next
  case (p_post a s cb ex val)
  with assms(2) have o: "owner cb = a" by (auto simp: own_ok_def)
  from p_post assms(3) o lock_lt[OF p_post(2)] show ?thesis
    by (fastforce simp: posted_ok_def)
qed (use lock_lt in \<open>fastforce simp: posted_ok_def\<close>)+

lemma prim_quiet:
  assumes "prim w w'" and "own_ok w" and "quiet X w"
  shows "quiet X w' \<and> (\<exists>ys. invoked w' = invoked w @ ys \<and> set ys \<inter> X = {})"
  using assms
proof (cases rule: prim.cases)
  case (p_alloc ex)
  have "\<And>x s. lock w x = Some s \<Longrightarrow> lock w' x = Some s"
    unfolding p_alloc using lock_lt by (fastforce simp: lock_alloc)
  with assms(3) p_alloc show ?thesis
    by (fastforce simp: quiet_def alloc_def)
next
  case (p_run k)
  have "owner (fst (snd (posted w ! k))) \<notin> X"
    using assms(3) p_run(2) nth_mem[OF p_run(2)]
    by (cases "posted w ! k") (auto simp: quiet_def)
  with assms(3) p_run show ?thesis
    by (auto simp: quiet_def dest!: in_set_takeD in_set_dropD)
next
  case (p_post a s cb ex val)
  with assms(2) have o: "owner cb = a" by (auto simp: own_ok_def)
  have "a \<notin> X" using assms(3) p_post by (auto simp: quiet_def)
  with p_post assms(3) o lock_lt[OF p_post(2)] show ?thesis
    by (fastforce simp: quiet_def)
next
  case (p_inline a s cb)
  with assms(2) have o: "owner cb = a" by (auto simp: own_ok_def)
  have "a \<notin> X" using assms(3) p_inline by (auto simp: quiet_def)
  with p_inline assms(3) o lock_lt[OF p_inline(2)] show ?thesis
    by (fastforce simp: quiet_def)
next
  case (p_settle a s st r)
  then have "a \<notin> X" using assms(3) by (auto simp: quiet_def)
  with p_settle assms(3) show ?thesis by (fastforce simp: quiet_def)
next
  case (p_cancel a s d)
  with assms(3) lock_lt[OF p_cancel(2)] show ?thesis by (fastforce simp: quiet_def)
qed (use lock_lt in \<open>fastforce simp: quiet_def\<close>)+

lemma steps_own_ok: "steps w w' \<Longrightarrow> own_ok w \<Longrightarrow> own_ok w'"
  by (induction rule: rtranclp_induct) (auto intro: prim_own_ok)

lemma steps_posted_ok: "steps w w' \<Longrightarrow> own_ok w \<Longrightarrow> posted_ok w \<Longrightarrow> posted_ok w'"
proof (induction rule: rtranclp_induct)
  case base
  then show ?case by simp
next
  case (step y z)
  then have "own_ok y" "posted_ok y" by (auto intro: steps_own_ok)
  with step.hyps(2) show ?case by (auto intro: prim_posted_ok)
qed

lemma steps_quiet:
  "steps w w' \<Longrightarrow> own_ok w \<Longrightarrow> quiet X w \<Longrightarrow>
     quiet X w' \<and> (\<exists>ys. invoked w' = invoked w @ ys \<and> set ys \<inter> X = {})"
proof (induction rule: rtranclp_induct)
  case base
  then show ?case by simp
next
  case (step y z)
  then have q: "quiet X y" and i: "\<exists>ys. invoked y = invoked w @ ys \<and> set ys \<inter> X = {}"
    by auto
  have "own_ok y" using step.hyps(1) step.prems(1) by (rule steps_own_ok)
  from prim_quiet[OF step.hyps(2) this q] i show ?case by auto
qed

lemma own_ok_empty: "own_ok empty_world"
  by (simp add: own_ok_def lock_def empty_world_def)

lemma posted_ok_empty: "posted_ok empty_world"
  by (simp add: posted_ok_def empty_world_def)

lemma Cancel_invoked:
  "(\<forall>b w'. Cancel w a = Inr (b, w') \<longrightarrow> invoked w' = invoked w)"
  "(\<forall>b w'. OnCancel w a = Inr (b, w') \<longrightarrow> invoked w' = invoked w)"
proof (induction w a and w a rule: Cancel_OnCancel.induct)
  case (1 w a)
  show ?case
  proof (intro allI impI)
    fix b w' assume c: "Cancel w a = Inr (b, w')"
    show "invoked w' = invoked w"
    proof (cases "lock w a")
      case None
      with c show ?thesis by simp
    next
      case (Some s)
      show ?thesis
      proof (cases "m_status s = kInit \<or> m_status s = kPreRejected \<or> m_status s = kPreResolved")
        case True
        with c Some 1[OF Some True] show ?thesis by simp
      next
        case False
        with c Some show ?thesis by simp
      qed
    qed
  qed
next
  case (2 w a)
  show ?case
  proof (intro allI impI)
    fix b w' assume c: "OnCancel w a = Inr (b, w')"
    show "invoked w' = invoked w"
    proof (cases "lock w a")
      case None
      with c show ?thesis by simp
    next
      case s: (Some s)
      show ?thesis
      proof (cases "m_next s")
        case None
        with c s show ?thesis by auto
      next
        case (Some n)
        with c s 2[OF s Some] show ?thesis by simp
      qed
    qed
  qed
qed

lemma cancelled_stays:
  assumes "steps w w'" and "lock w a = Some s" and "m_status s = kCancelled"
  shows "status_at w' a = Some kCancelled"
proof -
  from steps_mono[OF assms(1,2)] obtain s' where s': "lock w' a = Some s'"
    and r: "transition\<^sup>*\<^sup>* (m_status s) (m_status s')" by blast
  from reach_cases[OF r] assms(3) have "m_status s' = kCancelled" by auto
  with s' show ?thesis by (simp add: status_at_def)
qed

lemma Cancel_marks:
  assumes c: "Cancel w a = Inr (r, w1)" and a: "lock w a = Some s"
    and k: "m_status s = kInit \<or> m_status s = kPreRejected \<or> m_status s = kPreResolved"
  shows "status_at w1 a = Some kCancelled"
proof -
  let ?wa = "(put w a (s\<lparr>m_status := kCancelled\<rparr>))
               \<lparr>destroyed := destroyed w @ (case m_co_handle s of None \<Rightarrow> [] | Some h \<Rightarrow> [h])\<rparr>"
  from c a k have "OnCancel ?wa a = Inr (r, w1)" by simp
  then have "steps ?wa w1" by (rule OnCancel_steps)
  moreover have "lock ?wa a = Some (s\<lparr>m_status := kCancelled\<rparr>)"
    using lock_lt[OF a] by simp
  ultimately show ?thesis by (rule cancelled_stays) simp
qed

lemma Cancel_marks_next:
  assumes c: "Cancel w a = Inr (r, w1)" and a: "lock w a = Some sa"
    and ka: "m_status sa = kInit \<or> m_status sa = kPreRejected \<or> m_status sa = kPreResolved"
    and n: "m_next sa = Some b" and b: "lock w b = Some sb"
    and kb: "m_status sb = kInit \<or> m_status sb = kPreRejected \<or> m_status sb = kPreResolved"
  shows "status_at w1 b = Some kCancelled"
proof -
  let ?wa = "(put w a (sa\<lparr>m_status := kCancelled\<rparr>))
               \<lparr>destroyed := destroyed w @ (case m_co_handle sa of None \<Rightarrow> [] | Some h \<Rightarrow> [h])\<rparr>"
  let ?wc = "put ?wa a (sa\<lparr>m_status := kCancelled, m_cb := None, m_storage := None\<rparr>)"
  from c a ka have "OnCancel ?wa a = Inr (r, w1)" by simp
  then have cb: "Cancel ?wc b = Inr (r, w1)" using lock_lt[OF a] n by simp
  show ?thesis
  proof (cases "b = a")
    case True
    then have "lock ?wc b = Some (sa\<lparr>m_status := kCancelled, m_cb := None, m_storage := None\<rparr>)"
      using lock_lt[OF a] by simp
    moreover have "steps ?wc w1" using cb by (rule Cancel_steps')
    ultimately show ?thesis using cancelled_stays by fastforce
  next
    case False
    then have "lock ?wc b = Some sb" using b by simp
    with cb show ?thesis using kb by (rule Cancel_marks)
  qed
qed

text \<open>
  Claim C4, amended. In a world built by operations, let \<open>a\<close> and its next state \<open>b\<close> both be
  \<^verbatim>\<open>kInit\<close>, \<^verbatim>\<open>kPreResolved\<close> or \<^verbatim>\<open>kPreRejected\<close>. Then \<^verbatim>\<open>Cancel\<close> on \<open>a\<close> (which returns when
  the chain ends at \<open>b\<close>) leaves both cancelled and calls no continuation, and whatever
  operations follow, both stay cancelled and no continuation attached to \<open>a\<close> or to \<open>b\<close> is
  ever called.
\<close>

theorem Cancel_reaches_next_and_silences:
  assumes reach: "run_ops empty_world ops0 = Inr w"
    and a: "lock w a = Some sa"
    and ka: "m_status sa = kInit \<or> m_status sa = kPreRejected \<or> m_status sa = kPreResolved"
    and n: "m_next sa = Some b"
    and b: "lock w b = Some sb"
    and kb: "m_status sb = kInit \<or> m_status sb = kPreRejected \<or> m_status sb = kPreResolved"
  shows "(a \<noteq> b \<and> m_next sb = None \<longrightarrow> (\<exists>w1. Cancel w a = Inr (True, w1)))
     \<and> (\<forall>r w1. Cancel w a = Inr (r, w1) \<longrightarrow>
          status_at w1 a = Some kCancelled \<and> status_at w1 b = Some kCancelled
        \<and> invoked w1 = invoked w
        \<and> (\<forall>ops w2. run_ops w1 ops = Inr w2 \<longrightarrow>
             status_at w2 a = Some kCancelled \<and> status_at w2 b = Some kCancelled
           \<and> (\<exists>ys. invoked w2 = invoked w1 @ ys \<and> a \<notin> set ys \<and> b \<notin> set ys)))"
proof (intro conjI impI allI)
  assume h: "a \<noteq> b \<and> m_next sb = None"
  then show "\<exists>w1. Cancel w a = Inr (True, w1)"
    using a ka n b kb lock_lt[OF a] lock_lt[OF b] by auto
next
  fix r w1
  assume c: "Cancel w a = Inr (r, w1)"
  show sa1: "status_at w1 a = Some kCancelled" using c a ka by (rule Cancel_marks)
  show sb1: "status_at w1 b = Some kCancelled" using c a ka n b kb by (rule Cancel_marks_next)
  show "invoked w1 = invoked w" using c Cancel_invoked(1) by blast
  fix ops w2
  assume r2: "run_ops w1 ops = Inr w2"
  have s0: "steps empty_world w" using reach by (rule run_ops_steps)
  have s1: "steps w w1" using c by (rule Cancel_steps')
  have s2: "steps w1 w2" using r2 by (rule run_ops_steps)
  have ow: "own_ok w" using s0 own_ok_empty by (rule steps_own_ok)
  have pw: "posted_ok w" using s0 own_ok_empty posted_ok_empty by (rule steps_posted_ok)
  have o1: "own_ok w1" using s1 ow by (rule steps_own_ok)
  have p1: "posted_ok w1" using s1 ow pw by (rule steps_posted_ok)
  have q: "quiet {a, b} w1"
    unfolding quiet_def
  proof (intro conjI ballI allI impI)
    fix x assume "x \<in> {a, b}"
    with sa1 sb1 show "\<exists>s. lock w1 x = Some s \<and> m_status s = kCancelled"
      by (auto simp: status_at_def)
  next
    fix ex cb val assume "(ex, cb, val) \<in> set (posted w1)"
    with p1 obtain s where "lock w1 (owner cb) = Some s"
      "m_status s = kResolved \<or> m_status s = kRejected"
      unfolding posted_ok_def by blast
    with sa1 sb1 show "owner cb \<notin> {a, b}" by (auto simp: status_at_def)
  qed
  from steps_quiet[OF s2 o1 q] have q2: "quiet {a, b} w2"
    and i: "\<exists>ys. invoked w2 = invoked w1 @ ys \<and> set ys \<inter> {a, b} = {}" by auto
  from q2 show "status_at w2 a = Some kCancelled" "status_at w2 b = Some kCancelled"
    by (auto simp: quiet_def status_at_def)
  from i show "\<exists>ys. invoked w2 = invoked w1 @ ys \<and> a \<notin> set ys \<and> b \<notin> set ys" by auto
qed

theorem Cancel_reaches_next_and_silences_witness:
  "\<exists>w w1. run_ops (empty_world :: (nat, nat) World) [OpNew None, OpThenResult 0 id None] = Inr w
     \<and> status_at w 0 = Some kInit \<and> status_at w 1 = Some kInit
     \<and> Cancel w 0 = Inr (True, w1)
     \<and> status_at w1 0 = Some kCancelled \<and> status_at w1 1 = Some kCancelled
     \<and> (\<forall>ops w2. run_ops w1 ops = Inr w2 \<longrightarrow>
           (\<exists>ys. invoked w2 = invoked w1 @ ys \<and> 0 \<notin> set ys \<and> 1 \<notin> set ys))"
proof -
  let ?ops0 = "[OpNew None, OpThenResult 0 id None] :: (nat, nat) Op list"
  let ?sa = "\<lparr>m_status = kInit, m_exec = None, m_next = Some 1, m_prev = None,
     m_co_handle = None, m_storage = None, m_cb = Some (AttachResult 0 id)\<rparr> :: (nat, nat) State"
  let ?sb = "\<lparr>m_status = kInit, m_exec = None, m_next = None, m_prev = Some 0,
     m_co_handle = None, m_storage = None, m_cb = None\<rparr> :: (nat, nat) State"
  have "\<exists>w. run_ops empty_world ?ops0 = Inr w \<and> lock w 0 = Some ?sa \<and> lock w 1 = Some ?sb"
    by (simp add: deliver_simps closure_simps Then_result_def alloc_def empty_world_def
        new_state_def lock_def put_def Watch_def PreferExecutor_def GetExecutor_def Let_def)
  then obtain w where r: "run_ops empty_world ?ops0 = Inr w"
    and a: "lock w 0 = Some ?sa" and b: "lock w 1 = Some ?sb" by blast
  have ka: "m_status ?sa = kInit \<or> m_status ?sa = kPreRejected \<or> m_status ?sa = kPreResolved"
    by simp
  have kb: "m_status ?sb = kInit \<or> m_status ?sb = kPreRejected \<or> m_status ?sb = kPreResolved"
    by simp
  have n: "m_next ?sa = Some 1" by simp
  note t = Cancel_reaches_next_and_silences[OF r a ka n b kb]
  from t obtain w1 where c: "Cancel w 0 = Inr (True, w1)" by auto
  from t c have "status_at w1 0 = Some kCancelled \<and> status_at w1 1 = Some kCancelled
     \<and> (\<forall>ops w2. run_ops w1 ops = Inr w2 \<longrightarrow>
           (\<exists>ys. invoked w2 = invoked w1 @ ys \<and> 0 \<notin> set ys \<and> 1 \<notin> set ys))"
    by blast
  with r a b c show ?thesis by (auto simp: status_at_def)
qed

text \<open>
  Claim C4 as stated fails when the next state is already settled and delivered: \<^verbatim>\<open>B\<close>,
  built by \<^verbatim>\<open>Then\<close> on \<^verbatim>\<open>A\<close>, is resolved through its own resolver with a continuation
  attached; \<^verbatim>\<open>Cancel\<close> on \<^verbatim>\<open>A\<close> returns false and \<^verbatim>\<open>B\<close> stays \<^verbatim>\<open>kResolved\<close>.
\<close>

theorem Cancel_settled_next_counterexample:
  "cancel_after [OpNew None, OpThenResult 0 id None, OpThenVoid 1 (UserFn 1) None,
        OpResolve 1 (Atom 5) :: (nat, nat) Op] 0 0 = Inr (Some kInit, False, Some kCancelled)
   \<and> cancel_after [OpNew None, OpThenResult 0 id None, OpThenVoid 1 (UserFn 1) None,
        OpResolve 1 (Atom 5) :: (nat, nat) Op] 0 1 = Inr (Some kResolved, False, Some kResolved)"
  by (simp add: cancel_after_def status_at_def deliver_simps closure_simps Then_void_def
      Attach_void_def Then_result_def alloc_def empty_world_def new_state_def lock_def put_def
      discard_def Watch_def PreferExecutor_def GetExecutor_def Let_def)

lemma map_add_single:
  "([i \<mapsto> s] ++ m) j = (case m j of Some x \<Rightarrow> Some x | None \<Rightarrow> if j = i then Some s else None)"
  by (simp add: map_add_def split: option.splits)

lemma map_of_snoc:
  "map_of (pre @ [(i, s)]) j =
     (case map_of pre j of Some x \<Rightarrow> Some x | None \<Rightarrow> if j = i then Some s else None)"
  by (simp add: map_add_single)







lemma vec_of_length [simp]: "length (vec_of n evs f d) = n"
  by (simp add: vec_of_def)



















lemma hit_count_Nil [simp]: "hit_count n [] P = 0"
  by (simp add: hit_count_def)

lemma vec_of_Nil [simp]: "vec_of n [] f d = replicate n d"
  by (simp add: vec_of_def map_replicate_const)

lemma no_hit_Nil [simp]: "no_hit [] P"
  by (simp add: no_hit_def)


























text \<open>
  Claim C8. \<^verbatim>\<open>IsPending\<close> is true exactly for the two settled-but-undelivered statuses
  and false for \<^verbatim>\<open>kInit\<close> and the three terminal statuses; \<^verbatim>\<open>await_ready\<close> is
  \<^verbatim>\<open>IsPending\<close>, so awaiting a promise in one of these two statuses does not suspend.
\<close>

theorem IsPending_exactly_presettled:
  "IsPending s = (m_status s = kPreResolved \<or> m_status s = kPreRejected)
   \<and> IsPending (s\<lparr>m_status := kInit\<rparr>) = False
   \<and> IsPending (s\<lparr>m_status := kResolved\<rparr>) = False
   \<and> IsPending (s\<lparr>m_status := kRejected\<rparr>) = False
   \<and> IsPending (s\<lparr>m_status := kCancelled\<rparr>) = False
   \<and> await_ready s = IsPending s
   \<and> (co_await_step s = NoSuspend) = (m_status s = kPreResolved \<or> m_status s = kPreRejected)"
  by (simp add: IsPending_def GetStatus_def await_ready_def co_await_step_def Let_def)


end
